theory Spec2Isabelle
  imports Main "HOL-Library.Word" "HOL-Library.Monad_Syntax"
begin

section \<open>The pool allocator of mem_pool.c\<close>

text \<open>
  Machine types: \<open>size_t\<close> and \<open>char *\<close> are 64-bit words, \<open>unsigned\<close> is a 32-bit
  word; the null address is 0. A pointer to a node is the index of its slot in the
  node heap, \<open>None\<close> for \<open>NULL\<close>. Every operation returns an option: \<open>None\<close> is the
  outcome of a run that reads or writes outside an array or through a null or
  unset pointer, where C leaves the behaviour undefined, or that a failed \<open>assert\<close>
  aborts.
\<close>

type_synonym size_t = "64 word"
type_synonym unsigned = "32 word"
type_synonym addr = "64 word"

datatype alloc_policy = FIRST_FIT | BEST_FIT

datatype alloc_status = ALLOC_OK | ALLOC_FAIL | ALLOC_NOT_FREED | ALLOC_CALLED_AGAIN

record node =
  rec_mem :: addr
  rec_size :: size_t
  used :: unsigned
  allocated :: unsigned
  nxt :: "nat option"
  prv :: "nat option"

record gap =
  gap_size :: size_t
  gap_node :: "nat option"

record pool_mgr =
  mem :: addr
  policy :: alloc_policy
  total_size :: size_t
  alloc_size :: size_t
  num_allocs :: unsigned
  num_gaps :: unsigned
  node_heap :: "node list"
  total_nodes :: unsigned
  used_nodes :: unsigned
  gap_ix :: "gap list"
  gap_ix_capacity :: unsigned

definition MEM_NODE_HEAP_INIT_CAPACITY :: nat where
  "MEM_NODE_HEAP_INIT_CAPACITY = 40"

definition MEM_GAP_IX_INIT_CAPACITY :: nat where
  "MEM_GAP_IX_INIT_CAPACITY = 40"

definition MEM_POOL_STORE_INIT_CAPACITY :: nat where
  "MEM_POOL_STORE_INIT_CAPACITY = 20"

definition MEM_EXPAND_FACTOR :: unsigned where
  "MEM_EXPAND_FACTOR = 2"

definition zero_node :: node where
  "zero_node = \<lparr>rec_mem = 0, rec_size = 0, used = 0, allocated = 0, nxt = None, prv = None\<rparr>"

definition zero_gap :: gap where
  "zero_gap = \<lparr>gap_size = 0, gap_node = None\<rparr>"

subsection \<open>Array access\<close>

definition rd :: "'a list \<Rightarrow> nat \<Rightarrow> 'a option" where
  "rd xs i = (if i < length xs then Some (xs ! i) else None)"

definition wr :: "'a list \<Rightarrow> nat \<Rightarrow> ('a \<Rightarrow> 'a) \<Rightarrow> 'a list option" where
  "wr xs i f = (if i < length xs then Some (xs[i := f (xs ! i)]) else None)"

text \<open>Dereferencing a node pointer: \<open>NULL\<close> and a slot outside the heap are undefined.\<close>

definition deref :: "node list \<Rightarrow> nat option \<Rightarrow> node option" where
  "deref h p = (case p of None \<Rightarrow> None | Some i \<Rightarrow> rd h i)"

text \<open>
  The fill test \<open>(float) occupancy / capacity > 0.75\<close>, taken exactly (no rounding of
  the quotient): with capacity 0 the quotient is infinite for a positive occupancy
  and not a number for 0, which compares false.
\<close>

definition over_fill :: "unsigned \<Rightarrow> unsigned \<Rightarrow> bool" where
  "over_fill occ cap = (4 * unat occ > 3 * unat cap)"

subsection \<open>Gap index\<close>

text \<open>
  \<open>_mem_resize_gap_ix\<close>: \<open>realloc\<close> is called with \<open>2 * sizeof(pool_store)\<close> bytes, the
  size of one \<open>gap_t\<close> (two pointer-sized fields), so the block keeps its first entry
  only; the capacity is doubled and the slots from \<open>num_gaps\<close> up to it are zeroed.
\<close>

function zero_gaps :: "gap list \<Rightarrow> nat \<Rightarrow> nat \<Rightarrow> gap list option" where
  "zero_gaps g i n =
     (if i < n then
        (case wr g i (\<lambda>_. zero_gap) of None \<Rightarrow> None | Some g' \<Rightarrow> zero_gaps g' (Suc i) n)
      else Some g)"
  by pat_completeness auto
termination
  by (relation "measure (\<lambda>(g, i, n). n - i)") auto

declare zero_gaps.simps [simp del]

definition mem_resize_gap_ix :: "pool_mgr \<Rightarrow> (alloc_status \<times> pool_mgr) option" where
  "mem_resize_gap_ix s =
     (if over_fill (num_gaps s) (gap_ix_capacity s) then
        (let cap = gap_ix_capacity s * MEM_EXPAND_FACTOR in
         case zero_gaps (take 1 (gap_ix s)) (unat (num_gaps s)) (unat cap) of
           None \<Rightarrow> None
         | Some g \<Rightarrow> Some (ALLOC_OK, s\<lparr>gap_ix := g, gap_ix_capacity := cap\<rparr>))
      else Some (ALLOC_OK, s))"

text \<open>
  \<open>_mem_sort_gap_ix\<close>: one pass from the last entry down to entry 1; two neighbours
  are swapped when the right one's node is smaller in size or lower in address.
\<close>

definition gap_before :: "node list \<Rightarrow> gap \<Rightarrow> gap \<Rightarrow> bool option" where
  "gap_before h a b =
     (case (deref h (gap_node a), deref h (gap_node b)) of
        (Some na, Some nb) \<Rightarrow> Some (rec_size na < rec_size nb \<or> rec_mem na < rec_mem nb)
      | _ \<Rightarrow> None)"

fun sort_pass :: "node list \<Rightarrow> gap list \<Rightarrow> nat \<Rightarrow> gap list option" where
  "sort_pass h g 0 = Some g"
| "sort_pass h g (Suc i) =
     (if Suc i < length g then
        (case gap_before h (g ! Suc i) (g ! i) of
           None \<Rightarrow> None
         | Some True \<Rightarrow> sort_pass h (g[i := g ! Suc i, Suc i := g ! i]) i
         | Some False \<Rightarrow> sort_pass h g i)
      else None)"

definition mem_sort_gap_ix :: "pool_mgr \<Rightarrow> (alloc_status \<times> pool_mgr) option" where
  "mem_sort_gap_ix s =
     (case sort_pass (node_heap s) (gap_ix s) (nat (sint (num_gaps s - 1))) of
        None \<Rightarrow> None
      | Some g \<Rightarrow> Some (ALLOC_OK, s\<lparr>gap_ix := g\<rparr>))"

text \<open>
  \<open>_mem_add_to_gap_ix\<close>: resize (its status is dropped), append at \<open>num_gaps\<close>, count,
  sort; \<open>ALLOC_OK\<close> when the sort returns \<open>ALLOC_OK\<close>, \<open>ALLOC_FAIL\<close> otherwise.
\<close>

definition mem_add_to_gap_ix :: "pool_mgr \<Rightarrow> size_t \<Rightarrow> nat \<Rightarrow> (alloc_status \<times> pool_mgr) option" where
  "mem_add_to_gap_ix s sz nd =
     (case mem_resize_gap_ix s of
        None \<Rightarrow> None
      | Some (_, s1) \<Rightarrow>
          (case wr (gap_ix s1) (unat (num_gaps s1)) (\<lambda>_. \<lparr>gap_size = sz, gap_node = Some nd\<rparr>) of
             None \<Rightarrow> None
           | Some g \<Rightarrow>
               (case mem_sort_gap_ix (s1\<lparr>gap_ix := g, num_gaps := num_gaps s1 + 1\<rparr>) of
                  None \<Rightarrow> None
                | Some (status, s2) \<Rightarrow>
                    Some (if status = ALLOC_OK then ALLOC_OK else ALLOC_FAIL, s2))))"

text \<open>
  \<open>_mem_remove_from_gap_ix\<close>: the position of the node among the first \<open>num_gaps\<close>
  entries, or 0 when it is not there; the entries after it move one place down, up
  to \<open>gap_ix_capacity - 1\<close>; both \<open>num_gaps\<close> and \<open>gap_ix_capacity\<close> are decremented and
  the entry at the new \<open>num_gaps\<close> is zeroed. The status is \<open>ALLOC_OK\<close>.
\<close>

function gap_position :: "gap list \<Rightarrow> nat \<Rightarrow> nat \<Rightarrow> nat \<Rightarrow> nat option" where
  "gap_position g nd i n =
     (if i < n then
        (case rd g i of
           None \<Rightarrow> None
         | Some e \<Rightarrow> if gap_node e = Some nd then Some i else gap_position g nd (Suc i) n)
      else Some 0)"
  by pat_completeness auto
termination
  by (relation "measure (\<lambda>(g, nd, i, n). n - i)") auto

declare gap_position.simps [simp del]

function shift_down :: "gap list \<Rightarrow> nat \<Rightarrow> nat \<Rightarrow> gap list option" where
  "shift_down g i n =
     (if i < n then
        (case rd g (Suc i) of
           None \<Rightarrow> None
         | Some e \<Rightarrow> shift_down (g[i := e]) (Suc i) n)
      else Some g)"
  by pat_completeness auto
termination
  by (relation "measure (\<lambda>(g, i, n). n - i)") auto

declare shift_down.simps [simp del]

definition mem_remove_from_gap_ix :: "pool_mgr \<Rightarrow> nat \<Rightarrow> (alloc_status \<times> pool_mgr) option" where
  "mem_remove_from_gap_ix s nd =
     (case gap_position (gap_ix s) nd 0 (unat (num_gaps s)) of
        None \<Rightarrow> None
      | Some index \<Rightarrow>
          (case shift_down (gap_ix s) index (unat (gap_ix_capacity s - 1)) of
             None \<Rightarrow> None
           | Some g \<Rightarrow>
               (case wr g (unat (num_gaps s - 1)) (\<lambda>_. zero_gap) of
                  None \<Rightarrow> None
                | Some g' \<Rightarrow>
                    Some (ALLOC_OK,
                          s\<lparr>gap_ix := g', num_gaps := num_gaps s - 1,
                            gap_ix_capacity := gap_ix_capacity s - 1\<rparr>))))"

subsection \<open>Node heap access\<close>

definition get_node :: "pool_mgr \<Rightarrow> nat \<Rightarrow> node option" where
  "get_node s i = rd (node_heap s) i"

definition upd_node :: "pool_mgr \<Rightarrow> nat \<Rightarrow> (node \<Rightarrow> node) \<Rightarrow> pool_mgr option" where
  "upd_node s i f =
     (case wr (node_heap s) i f of None \<Rightarrow> None | Some h \<Rightarrow> Some (s\<lparr>node_heap := h\<rparr>))"

text \<open>
  The scans of the node heap, \<open>for (i = 0; i < total_nodes; i++) if (P(node_heap[i])) break\<close>:
  the first slot that satisfies the test, \<open>Some None\<close> when the loop ends without one.
\<close>

function first_slot :: "node list \<Rightarrow> (node \<Rightarrow> bool) \<Rightarrow> nat \<Rightarrow> nat \<Rightarrow> nat option option" where
  "first_slot h P i n =
     (if i < n then
        (case rd h i of
           None \<Rightarrow> None
         | Some x \<Rightarrow> if P x then Some (Some i) else first_slot h P (Suc i) n)
      else Some None)"
  by pat_completeness auto
termination
  by (relation "measure (\<lambda>(h, P, i, n). n - i)") auto

declare first_slot.simps [simp del]

text \<open>The scan of the gap index under \<open>BEST_FIT\<close>: the node of the first entry that fits.\<close>

function first_gap :: "node list \<Rightarrow> gap list \<Rightarrow> size_t \<Rightarrow> nat \<Rightarrow> nat \<Rightarrow> nat option option" where
  "first_gap h g sz i n =
     (if i < n then
        (case rd g i of
           None \<Rightarrow> None
         | Some e \<Rightarrow>
             (case deref h (gap_node e) of
                None \<Rightarrow> None
              | Some x \<Rightarrow>
                  if allocated x = 0 \<and> sz \<le> rec_size x then Some (gap_node e)
                  else first_gap h g sz (Suc i) n))
      else Some None)"
  by pat_completeness auto
termination
  by (relation "measure (\<lambda>(h, g, sz, i, n). n - i)") auto

declare first_gap.simps [simp del]

definition fits :: "size_t \<Rightarrow> node \<Rightarrow> bool" where
  "fits sz x = (allocated x = 0 \<and> sz \<le> rec_size x)"

definition select_node :: "pool_mgr \<Rightarrow> size_t \<Rightarrow> nat option option" where
  "select_node s sz =
     (case policy s of
        FIRST_FIT \<Rightarrow> first_slot (node_heap s) (fits sz) 0 (unat (total_nodes s))
      | BEST_FIT \<Rightarrow> first_gap (node_heap s) (gap_ix s) sz 0 (unat (num_gaps s)))"

subsection \<open>Allocation\<close>

text \<open>
  \<open>mem_new_alloc\<close>. The local \<open>unused_node\<close> has no initialiser: \<open>junk\<close> is the value it
  holds when the scan for an unused slot sets nothing (\<open>None\<close> for a null pointer).
  After a split, \<open>assert(status == ALLOC_OK)\<close> checks the insertion of the remainder.
  The result is the selected node, \<open>None\<close> for \<open>NULL\<close>, with the pool after the call.
\<close>

definition link_after :: "pool_mgr \<Rightarrow> nat \<Rightarrow> nat \<Rightarrow> size_t \<Rightarrow> size_t \<Rightarrow> pool_mgr option" where
  "link_after s new_node unused_node sz remaining_gap = do {
     s1 \<leftarrow> upd_node s unused_node (\<lambda>x. x\<lparr>allocated := 0\<rparr>);
     s2 \<leftarrow> upd_node s1 unused_node (\<lambda>x. x\<lparr>used := 1\<rparr>);
     nn \<leftarrow> get_node s2 new_node;
     s3 \<leftarrow> upd_node s2 unused_node (\<lambda>x. x\<lparr>rec_mem := rec_mem nn + sz\<rparr>);
     s4 \<leftarrow> upd_node s3 unused_node (\<lambda>x. x\<lparr>rec_size := remaining_gap\<rparr>);
     s5 \<leftarrow> Some (s4\<lparr>used_nodes := used_nodes s4 + 1\<rparr>);
     s6 \<leftarrow> upd_node s5 unused_node (\<lambda>x. x\<lparr>prv := Some new_node\<rparr>);
     nn' \<leftarrow> get_node s6 new_node;
     (case nxt nn' of
        None \<Rightarrow> do {
          s7 \<leftarrow> upd_node s6 new_node (\<lambda>x. x\<lparr>nxt := Some unused_node\<rparr>);
          upd_node s7 unused_node (\<lambda>x. x\<lparr>nxt := None\<rparr>)
        }
      | Some nx \<Rightarrow> do {
          s7 \<leftarrow> upd_node s6 unused_node (\<lambda>x. x\<lparr>nxt := Some nx\<rparr>);
          nn2 \<leftarrow> get_node s7 new_node;
          nx2 \<leftarrow> nxt nn2;
          s8 \<leftarrow> upd_node s7 nx2 (\<lambda>x. x\<lparr>prv := Some unused_node\<rparr>);
          upd_node s8 new_node (\<lambda>x. x\<lparr>nxt := Some unused_node\<rparr>)
        })
   }"

definition split_node :: "pool_mgr \<Rightarrow> nat \<Rightarrow> nat \<Rightarrow> size_t \<Rightarrow> size_t \<Rightarrow> pool_mgr option" where
  "split_node s new_node unused_node sz remaining_gap = do {
     s9 \<leftarrow> link_after s new_node unused_node sz remaining_gap;
     (status, s10) \<leftarrow> mem_add_to_gap_ix s9 remaining_gap unused_node;
     if status = ALLOC_OK then Some s10 else None
   }"

definition mem_new_alloc :: "nat option \<Rightarrow> pool_mgr \<Rightarrow> size_t \<Rightarrow> (nat option \<times> pool_mgr) option" where
  "mem_new_alloc junk s sz =
     (if num_gaps s = 0 then Some (None, s)
      else if total_nodes s \<le> used_nodes s then Some (None, s)
      else
        (case select_node s sz of
           None \<Rightarrow> None
         | Some None \<Rightarrow> Some (None, s)
         | Some (Some new_node) \<Rightarrow> do {
             s1 \<leftarrow> Some (s\<lparr>num_allocs := num_allocs s + 1\<rparr>);
             s2 \<leftarrow> Some (s1\<lparr>alloc_size := alloc_size s1 + sz\<rparr>);
             nn \<leftarrow> get_node s2 new_node;
             remaining_gap \<leftarrow> Some (rec_size nn - sz);
             (_, s3) \<leftarrow> mem_remove_from_gap_ix s2 new_node;
             s4 \<leftarrow> upd_node s3 new_node (\<lambda>x. x\<lparr>allocated := 1\<rparr>);
             s5 \<leftarrow> upd_node s4 new_node (\<lambda>x. x\<lparr>rec_size := sz\<rparr>);
             if remaining_gap \<noteq> 0 then do {
               found \<leftarrow> first_slot (node_heap s5) (\<lambda>x. used x = 0) 0 (unat (total_nodes s5));
               (case (case found of Some i \<Rightarrow> Some i | None \<Rightarrow> junk) of
                  None \<Rightarrow> Some (None, s5)
                | Some unused_node \<Rightarrow> do {
                    s6 \<leftarrow> split_node s5 new_node unused_node sz remaining_gap;
                    Some (Some new_node, s6)
                  })
             } else Some (Some new_node, s5)
           }))"

subsection \<open>Deallocation\<close>

text \<open>
  \<open>mem_del_alloc\<close>. The argument is the address \<open>alloc->mem\<close> read through the handle.
  The local \<open>node_to_delete\<close> has no initialiser: \<open>junk\<close> is the value it holds when no
  slot of the node heap has that address. The tests \<open>next->used = 1\<close> and
  \<open>prev->used = 1\<close> are assignments: they store 1 and are true. The backward merge
  returns \<open>ALLOC_FAIL\<close> from the call when a removal from the gap index reports it;
  its status is \<open>ALLOC_OK\<close> when the call goes on to its end.
\<close>

definition unlink_next :: "pool_mgr \<Rightarrow> nat \<Rightarrow> nat \<Rightarrow> pool_mgr option" where
  "unlink_next s1 node_to_delete next_node = do {
     nd \<leftarrow> get_node s1 node_to_delete;
     nx \<leftarrow> deref (node_heap s1) (nxt nd);
     s2 \<leftarrow> upd_node s1 node_to_delete (\<lambda>x. x\<lparr>rec_size := rec_size x + rec_size nx\<rparr>);
     nd2 \<leftarrow> get_node s2 node_to_delete;
     n2 \<leftarrow> nxt nd2;
     s3 \<leftarrow> upd_node s2 n2 (\<lambda>x. x\<lparr>used := 0\<rparr>);
     nd3 \<leftarrow> get_node s3 node_to_delete;
     n3 \<leftarrow> nxt nd3;
     s4 \<leftarrow> upd_node s3 n3 (\<lambda>x. x\<lparr>rec_size := 0\<rparr>);
     nd4 \<leftarrow> get_node s4 node_to_delete;
     n4 \<leftarrow> nxt nd4;
     s5 \<leftarrow> upd_node s4 n4 (\<lambda>x. x\<lparr>rec_mem := 0\<rparr>);
     s6 \<leftarrow> upd_node s5 next_node (\<lambda>x. x\<lparr>used := 0\<rparr>);
     s7 \<leftarrow> Some (s6\<lparr>used_nodes := used_nodes s6 - 1\<rparr>);
     nx7 \<leftarrow> get_node s7 next_node;
     s9 \<leftarrow> (case nxt nx7 of
             Some nn \<Rightarrow> do {
               s8 \<leftarrow> upd_node s7 nn (\<lambda>x. x\<lparr>prv := Some node_to_delete\<rparr>);
               nx8 \<leftarrow> get_node s8 next_node;
               upd_node s8 node_to_delete (\<lambda>x. x\<lparr>nxt := nxt nx8\<rparr>)
             }
           | None \<Rightarrow> upd_node s7 node_to_delete (\<lambda>x. x\<lparr>nxt := None\<rparr>));
     s10 \<leftarrow> upd_node s9 next_node (\<lambda>x. x\<lparr>nxt := None\<rparr>);
     upd_node s10 next_node (\<lambda>x. x\<lparr>prv := None\<rparr>)
   }"

definition merge_next :: "pool_mgr \<Rightarrow> nat \<Rightarrow> nat \<Rightarrow> pool_mgr option" where
  "merge_next s node_to_delete next_node = do {
     (_, s1) \<leftarrow> mem_remove_from_gap_ix s next_node;
     unlink_next s1 node_to_delete next_node
   }"

definition unlink_prev :: "pool_mgr \<Rightarrow> nat \<Rightarrow> nat \<Rightarrow> pool_mgr option" where
  "unlink_prev s2 node_to_delete pre_node = do {
     nd \<leftarrow> get_node s2 node_to_delete;
     pr \<leftarrow> deref (node_heap s2) (prv nd);
     s3 \<leftarrow> upd_node s2 pre_node (\<lambda>x. x\<lparr>rec_size := rec_size nd + rec_size pr\<rparr>);
     s4 \<leftarrow> upd_node s3 node_to_delete (\<lambda>x. x\<lparr>used := 0\<rparr>);
     s5 \<leftarrow> upd_node s4 node_to_delete (\<lambda>x. x\<lparr>rec_size := 0\<rparr>);
     s6 \<leftarrow> upd_node s5 node_to_delete (\<lambda>x. x\<lparr>rec_mem := 0\<rparr>);
     s7 \<leftarrow> Some (s6\<lparr>used_nodes := used_nodes s6 - 1\<rparr>);
     nd7 \<leftarrow> get_node s7 node_to_delete;
     s9 \<leftarrow> (case nxt nd7 of
             Some nn \<Rightarrow> do {
               s8 \<leftarrow> upd_node s7 pre_node (\<lambda>x. x\<lparr>nxt := Some nn\<rparr>);
               nd8 \<leftarrow> get_node s8 node_to_delete;
               n8 \<leftarrow> nxt nd8;
               upd_node s8 n8 (\<lambda>x. x\<lparr>prv := Some pre_node\<rparr>)
             }
           | None \<Rightarrow> upd_node s7 pre_node (\<lambda>x. x\<lparr>nxt := None\<rparr>));
     s10 \<leftarrow> upd_node s9 node_to_delete (\<lambda>x. x\<lparr>nxt := None\<rparr>);
     upd_node s10 node_to_delete (\<lambda>x. x\<lparr>prv := None\<rparr>)
   }"

definition merge_prev :: "pool_mgr \<Rightarrow> nat \<Rightarrow> nat \<Rightarrow> (alloc_status \<times> pool_mgr) option" where
  "merge_prev s node_to_delete pre_node = do {
     (status, s1) \<leftarrow> mem_remove_from_gap_ix s pre_node;
     if status = ALLOC_FAIL then Some (ALLOC_FAIL, s1)
     else do {
       (status, s2) \<leftarrow> mem_remove_from_gap_ix s1 node_to_delete;
       if status = ALLOC_FAIL then Some (ALLOC_FAIL, s2)
       else do {
         s11 \<leftarrow> unlink_prev s2 node_to_delete pre_node;
         pr11 \<leftarrow> get_node s11 pre_node;
         (_, s12) \<leftarrow> mem_add_to_gap_ix s11 (rec_size pr11) pre_node;
         Some (ALLOC_OK, s12)
       }
     }
   }"

definition forward_merge :: "pool_mgr \<Rightarrow> nat \<Rightarrow> pool_mgr option" where
  "forward_merge s node_to_delete = do {
     nd \<leftarrow> get_node s node_to_delete;
     (case nxt nd of
        None \<Rightarrow> Some s
      | Some next_node \<Rightarrow> do {
          nx \<leftarrow> get_node s next_node;
          if allocated nx = 0 then do {
            s4 \<leftarrow> upd_node s next_node (\<lambda>x. x\<lparr>used := 1\<rparr>);
            merge_next s4 node_to_delete next_node
          } else Some s
        })
   }"

definition backward_merge :: "pool_mgr \<Rightarrow> nat \<Rightarrow> (alloc_status \<times> pool_mgr) option" where
  "backward_merge s node_to_delete = do {
     nd \<leftarrow> get_node s node_to_delete;
     (case prv nd of
        None \<Rightarrow> Some (ALLOC_OK, s)
      | Some pre_node \<Rightarrow> do {
          pr \<leftarrow> get_node s pre_node;
          if allocated pr = 0 then do {
            s7 \<leftarrow> upd_node s pre_node (\<lambda>x. x\<lparr>used := 1\<rparr>);
            merge_prev s7 node_to_delete pre_node
          } else Some (ALLOC_OK, s)
        })
   }"

definition mem_del_alloc :: "nat option \<Rightarrow> pool_mgr \<Rightarrow> addr \<Rightarrow> (alloc_status \<times> pool_mgr) option" where
  "mem_del_alloc junk s a = do {
     found \<leftarrow> first_slot (node_heap s) (\<lambda>x. a = rec_mem x) 0 (unat (total_nodes s));
     (case (case found of Some i \<Rightarrow> Some i | None \<Rightarrow> junk) of
        None \<Rightarrow> Some (ALLOC_NOT_FREED, s)
      | Some node_to_delete \<Rightarrow> do {
          s1 \<leftarrow> upd_node s node_to_delete (\<lambda>x. x\<lparr>allocated := 0\<rparr>);
          s2 \<leftarrow> Some (s1\<lparr>num_allocs := num_allocs s1 - 1\<rparr>);
          nd \<leftarrow> get_node s2 node_to_delete;
          s3 \<leftarrow> Some (s2\<lparr>alloc_size := alloc_size s2 - rec_size nd\<rparr>);
          s5 \<leftarrow> forward_merge s3 node_to_delete;
          nd5 \<leftarrow> get_node s5 node_to_delete;
          (_, s6) \<leftarrow> mem_add_to_gap_ix s5 (rec_size nd5) node_to_delete;
          (status, s8) \<leftarrow> backward_merge s6 node_to_delete;
          if status = ALLOC_FAIL then Some (ALLOC_FAIL, s8) else Some (ALLOC_OK, s8)
        })
   }"

subsection \<open>Pool store, opening and closing a pool\<close>

text \<open>
  The pool store is the global array of manager pointers (\<open>None\<close> while it is not
  allocated); a manager pointer is a number. \<open>_mem_resize_pool_store\<close> reallocates
  to \<open>2 * sizeof(pool_store)\<close> bytes, which is two pointers.
\<close>

record store =
  pool_store :: "nat option list option"
  pool_store_size :: unsigned
  pool_store_capacity :: unsigned

definition mem_init :: "store \<Rightarrow> alloc_status \<times> store" where
  "mem_init st =
     (case pool_store st of
        None \<Rightarrow> (ALLOC_OK, \<lparr>pool_store = Some (replicate MEM_POOL_STORE_INIT_CAPACITY None),
                            pool_store_size = 0,
                            pool_store_capacity = of_nat MEM_POOL_STORE_INIT_CAPACITY\<rparr>)
      | Some _ \<Rightarrow> (ALLOC_CALLED_AGAIN, st))"

definition mem_resize_pool_store :: "store \<Rightarrow> store" where
  "mem_resize_pool_store st =
     (if over_fill (pool_store_size st) (pool_store_capacity st) then
        st\<lparr>pool_store := map_option (take 2) (pool_store st),
           pool_store_capacity := pool_store_capacity st * MEM_EXPAND_FACTOR\<rparr>
      else st)"

definition init_node :: "addr \<Rightarrow> size_t \<Rightarrow> node" where
  "init_node buf sz =
     \<lparr>rec_mem = buf, rec_size = sz, used = 1, allocated = 0, nxt = None, prv = None\<rparr>"

definition init_mgr :: "addr \<Rightarrow> size_t \<Rightarrow> alloc_policy \<Rightarrow> pool_mgr" where
  "init_mgr buf sz pol =
     \<lparr>mem = buf, policy = pol, total_size = sz, alloc_size = 0, num_allocs = 0, num_gaps = 1,
      node_heap = (replicate MEM_NODE_HEAP_INIT_CAPACITY zero_node)[0 := init_node buf sz],
      total_nodes = of_nat MEM_NODE_HEAP_INIT_CAPACITY,
      used_nodes = 1,
      gap_ix = (replicate MEM_GAP_IX_INIT_CAPACITY zero_gap)
                 [0 := \<lparr>gap_size = sz, gap_node = Some 0\<rparr>],
      gap_ix_capacity = of_nat MEM_GAP_IX_INIT_CAPACITY\<rparr>"

text \<open>
  \<open>mem_pool_open\<close>: \<open>p\<close> is the address \<open>calloc\<close> returns for the new manager and
  \<open>buf\<close> the one it returns for the buffer, null when it fails; the node heap and the
  gap index are taken as allocated. The result is the pool handle with the manager it
  points to, \<open>None\<close> for \<open>NULL\<close> (in a build where \<open>assert\<close> is compiled out).
\<close>

definition mem_pool_open ::
  "store \<Rightarrow> nat \<Rightarrow> addr \<Rightarrow> size_t \<Rightarrow> alloc_policy \<Rightarrow> ((nat \<times> pool_mgr) option \<times> store) option" where
  "mem_pool_open st p buf sz pol =
     (case pool_store st of
        None \<Rightarrow> Some (None, st)
      | Some _ \<Rightarrow>
          (let st1 = mem_resize_pool_store st in
           if buf = 0 then Some (None, st1) else
           case pool_store st1 of
             None \<Rightarrow> None
           | Some ps \<Rightarrow>
               (case wr ps (unat (pool_store_size st1)) (\<lambda>_. Some p) of
                  None \<Rightarrow> None
                | Some ps' \<Rightarrow>
                    Some (Some (p, init_mgr buf sz pol),
                          st1\<lparr>pool_store := Some ps',
                              pool_store_size := pool_store_size st1 + 1\<rparr>))))"

text \<open>
  \<open>mem_pool_close\<close>: refused while the buffer is null, more than one gap is counted
  or an allocation is counted. Otherwise the manager is released (\<open>None\<close>) and the
  first slot of the store that holds its pointer is cleared.
\<close>

function clear_slot :: "nat option list \<Rightarrow> nat \<Rightarrow> nat \<Rightarrow> nat \<Rightarrow> nat option list option" where
  "clear_slot ps p i n =
     (if i < n then
        (case rd ps i of
           None \<Rightarrow> None
         | Some q \<Rightarrow> if q = Some p then Some (ps[i := None]) else clear_slot ps p (Suc i) n)
      else Some ps)"
  by pat_completeness auto
termination
  by (relation "measure (\<lambda>(ps, p, i, n). n - i)") auto

declare clear_slot.simps [simp del]

definition mem_pool_close ::
  "store \<Rightarrow> nat \<Rightarrow> pool_mgr \<Rightarrow> (alloc_status \<times> store \<times> pool_mgr option) option" where
  "mem_pool_close st p s =
     (if mem s = 0 \<or> 1 < num_gaps s \<or> 0 < num_allocs s then Some (ALLOC_NOT_FREED, st, Some s)
      else if pool_store_capacity st = 0 then Some (ALLOC_OK, st, None)
      else
        (case pool_store st of
           None \<Rightarrow> None
         | Some ps \<Rightarrow>
             (case clear_slot ps p 0 (unat (pool_store_capacity st)) of
                None \<Rightarrow> None
              | Some ps' \<Rightarrow> Some (ALLOC_OK, st\<lparr>pool_store := Some ps'\<rparr>, None))))"

subsection \<open>Sequences of calls on one pool\<close>

text \<open>
  A client call on an open pool: \<open>Alloc sz\<close> is \<open>mem_new_alloc(pool, sz)\<close>; \<open>Free h\<close> is
  \<open>mem_del_alloc(pool, h)\<close> with \<open>h\<close> the handle an earlier allocation returned, the
  node in slot \<open>h\<close>. The unset locals read as null.
\<close>

datatype call = Alloc size_t | Free nat

fun call_step :: "pool_mgr \<Rightarrow> call \<Rightarrow> pool_mgr option" where
  "call_step s (Alloc sz) = map_option snd (mem_new_alloc None s sz)"
| "call_step s (Free h) =
     (case get_node s h of
        None \<Rightarrow> None
      | Some x \<Rightarrow> map_option snd (mem_del_alloc None s (rec_mem x)))"

fun run :: "pool_mgr \<Rightarrow> call list \<Rightarrow> pool_mgr option" where
  "run s [] = Some s"
| "run s (c # cs) = (case call_step s c of None \<Rightarrow> None | Some s' \<Rightarrow> run s' cs)"

text \<open>
  The states of an open pool: the state \<open>mem_pool_open\<close> builds around a non-null
  buffer, and every state a returning \<open>mem_new_alloc\<close> or \<open>mem_del_alloc\<close> leaves,
  whatever size or address the client passes and whatever the unset locals hold.
\<close>

inductive reachable :: "pool_mgr \<Rightarrow> bool" where
  opened: "buf \<noteq> 0 \<Longrightarrow> reachable (init_mgr buf sz pol)"
| allocated: "reachable s \<Longrightarrow> mem_new_alloc junk s sz = Some (r, s') \<Longrightarrow> reachable s'"
| freed: "reachable s \<Longrightarrow> mem_del_alloc junk s a = Some (st, s') \<Longrightarrow> reachable s'"

subsection \<open>The linked partition and its invariants\<close>

text \<open>
  The net effect on the node heap of a merge (node \<open>a\<close> takes over its successor \<open>b\<close>,
  whose slot is retired) and of a split (the unused slot \<open>u\<close> becomes the gap after
  node \<open>i\<close>). The properties of the node heap that every call keeps: the links are
  mutual and join used slots only, following \<open>nxt\<close> never comes back, slot 0 stays
  the head, no free node has a free successor, and \<open>used_nodes\<close> counts the used
  slots.
\<close>

definition retire :: "node \<Rightarrow> node" where
  "retire x = x\<lparr>used := 0, rec_size := 0, rec_mem := 0, nxt := None, prv := None\<rparr>"

definition absorb :: "node list \<Rightarrow> nat \<Rightarrow> nat \<Rightarrow> node list" where
  "absorb h a b =
     (case nxt (h ! b) of
        None \<Rightarrow> h[a := (h ! a)\<lparr>rec_size := rec_size (h ! a) + rec_size (h ! b), nxt := None\<rparr>,
                 b := retire (h ! b)]
      | Some n \<Rightarrow> h[a := (h ! a)\<lparr>rec_size := rec_size (h ! a) + rec_size (h ! b), nxt := Some n\<rparr>,
                   n := (h ! n)\<lparr>prv := Some a\<rparr>,
                   b := retire (h ! b)])"

definition insert_after :: "node list \<Rightarrow> nat \<Rightarrow> nat \<Rightarrow> size_t \<Rightarrow> size_t \<Rightarrow> node list" where
  "insert_after h i u sz remaining_gap =
     (let new_gap = \<lparr>rec_mem = rec_mem (h ! i) + sz, rec_size = remaining_gap, used = 1,
                     allocated = 0, nxt = nxt (h ! i), prv = Some i\<rparr>
      in case nxt (h ! i) of
           None \<Rightarrow> h[u := new_gap, i := (h ! i)\<lparr>nxt := Some u\<rparr>]
         | Some n \<Rightarrow> h[u := new_gap, n := (h ! n)\<lparr>prv := Some u\<rparr>, i := (h ! i)\<lparr>nxt := Some u\<rparr>])"

text \<open>
  The parts of the invariant. \<open>noadj_except h k\<close> is what is left of \<open>noadj\<close> between
  the moment node \<open>k\<close> is marked free and the end of the merges.
\<close>

definition links_ok :: "node list \<Rightarrow> bool" where
  "links_ok h \<longleftrightarrow>
     (\<forall>i<length h.
        (used (h ! i) = 0 \<or> used (h ! i) = 1) \<and>
        (used (h ! i) = 0 \<longrightarrow> nxt (h ! i) = None \<and> prv (h ! i) = None \<and> rec_size (h ! i) = 0) \<and>
        (\<forall>j. nxt (h ! i) = Some j \<longrightarrow> j < length h \<and> used (h ! j) = 1 \<and> prv (h ! j) = Some i) \<and>
        (\<forall>j. prv (h ! i) = Some j \<longrightarrow> j < length h \<and> used (h ! j) = 1 \<and> nxt (h ! j) = Some i))"

definition acyclic_heap :: "node list \<Rightarrow> bool" where
  "acyclic_heap h \<longleftrightarrow> (\<exists>rank :: nat \<Rightarrow> nat. \<forall>i<length h. \<forall>j. nxt (h ! i) = Some j \<longrightarrow> rank i < rank j)"

definition head_ok :: "node list \<Rightarrow> bool" where
  "head_ok h \<longleftrightarrow> 0 < length h \<and> used (h ! 0) = 1 \<and> prv (h ! 0) = None"

definition noadj :: "node list \<Rightarrow> bool" where
  "noadj h \<longleftrightarrow> (\<forall>i<length h. \<forall>j. allocated (h ! i) = 0 \<and> nxt (h ! i) = Some j \<longrightarrow> allocated (h ! j) \<noteq> 0)"

definition noadj_except :: "node list \<Rightarrow> nat \<Rightarrow> bool" where
  "noadj_except h k \<longleftrightarrow>
     (\<forall>i<length h. \<forall>j. i \<noteq> k \<and> j \<noteq> k \<and> allocated (h ! i) = 0 \<and> nxt (h ! i) = Some j \<longrightarrow> allocated (h ! j) \<noteq> 0)"

definition used_slots :: "node list \<Rightarrow> nat set" where
  "used_slots h = {i. i < length h \<and> used (h ! i) = 1}"

text \<open>
  The invariant between calls, and inside \<open>mem_del_alloc\<close> once node \<open>k\<close> is marked
  free; \<open>d\<close> is 1 until the freed node is entered in the gap index.
\<close>

definition pool_inv :: "pool_mgr \<Rightarrow> bool" where
  "pool_inv s \<longleftrightarrow>
     length (node_heap s) = 40 \<and> total_nodes s = 40 \<and> mem s \<noteq> 0 \<and>
     links_ok (node_heap s) \<and> acyclic_heap (node_heap s) \<and> head_ok (node_heap s) \<and>
     noadj (node_heap s) \<and>
     unat (used_nodes s) = card (used_slots (node_heap s)) \<and>
     num_allocs s + num_gaps s = used_nodes s"

definition mid_inv :: "pool_mgr \<Rightarrow> nat \<Rightarrow> unsigned \<Rightarrow> bool" where
  "mid_inv s k d \<longleftrightarrow>
     length (node_heap s) = 40 \<and> total_nodes s = 40 \<and> mem s \<noteq> 0 \<and>
     links_ok (node_heap s) \<and> acyclic_heap (node_heap s) \<and> head_ok (node_heap s) \<and>
     noadj_except (node_heap s) k \<and> k < 40 \<and> allocated (node_heap s ! k) = 0 \<and>
     unat (used_nodes s) = card (used_slots (node_heap s)) \<and>
     num_allocs s + num_gaps s + d = used_nodes s"

text \<open>
  An active free block, and the absence of two such blocks next to each other in the
  list: neither the successor nor the predecessor of an active free block is one.
\<close>

definition free_block :: "node \<Rightarrow> bool" where
  "free_block x \<longleftrightarrow> used x = 1 \<and> allocated x = 0"



text \<open>The pool store is allocated and at least as long as its recorded capacity.\<close>

definition store_ok :: "store \<Rightarrow> bool" where
  "store_ok st = (case pool_store st of None \<Rightarrow> False | Some ps \<Rightarrow> unat (pool_store_capacity st) \<le> length ps)"

text \<open>The bytes of the active free blocks.\<close>

definition free_bytes :: "pool_mgr \<Rightarrow> size_t" where
  "free_bytes s = sum_list (map rec_size (filter free_block (node_heap s)))"

text \<open>
  The bytes a node adds to the free bytes, the conservation of bytes, and the states
  reached when every release is given the address of a live block.
\<close>

definition weight :: "node \<Rightarrow> size_t" where
  "weight x = (if free_block x then rec_size x else 0)"

definition conserved :: "pool_mgr \<Rightarrow> bool" where
  "conserved s \<longleftrightarrow> free_bytes s + alloc_size s = total_size s"

inductive reachable_live :: "pool_mgr \<Rightarrow> bool" where
  opened_live: "buf \<noteq> 0 \<Longrightarrow> reachable_live (init_mgr buf sz pol)"
| allocated_live:
    "reachable_live s \<Longrightarrow> mem_new_alloc junk s sz = Some (r, s') \<Longrightarrow> reachable_live s'"
| freed_live:
    "reachable_live s \<Longrightarrow>
     first_slot (node_heap s) (\<lambda>x. a = rec_mem x) 0 (unat (total_nodes s)) = Some (Some k) \<Longrightarrow>
     used (node_heap s ! k) = 1 \<Longrightarrow> allocated (node_heap s ! k) \<noteq> 0 \<Longrightarrow>
     mem_del_alloc junk s a = Some (st, s') \<Longrightarrow> reachable_live s'"

text \<open>
  The state of the gap index in which an allocation stays inside the array: the
  recorded capacity is within the array, \<open>num_gaps\<close> is within the capacity, one
  removal leaves the fill test of the next insertion false, and each of the first
  \<open>num_gaps\<close> entries points to a slot of the node heap.
\<close>

definition entry_ok :: "node list \<Rightarrow> gap \<Rightarrow> bool" where
  "entry_ok h e = (case gap_node e of None \<Rightarrow> False | Some k \<Rightarrow> k < length h)"

definition gap_ix_ok :: "pool_mgr \<Rightarrow> bool" where
  "gap_ix_ok s \<longleftrightarrow>
     unat (gap_ix_capacity s) \<le> length (gap_ix s) \<and>
     num_gaps s \<le> gap_ix_capacity s \<and>
     \<not> over_fill (num_gaps s - 1) (gap_ix_capacity s - 1) \<and>
     list_all (entry_ok (node_heap s)) (take (unat (num_gaps s)) (gap_ix s))"

section \<open>Properties\<close>

subsection \<open>The scan of the node heap\<close>

lemma first_slot_SomeD:
  "first_slot h P i n = Some (Some k) \<Longrightarrow>
     i \<le> k \<and> k < n \<and> k < length h \<and> P (h ! k) \<and> (\<forall>m. i \<le> m \<and> m < k \<longrightarrow> \<not> P (h ! m))"
proof (induction h P i n rule: first_slot.induct)
  case (1 h P i n)
  show ?case
  proof (cases "i < n \<and> i < length h")
    case False
    with "1.prems" show ?thesis by (auto simp: first_slot.simps[of h P i n] rd_def split: if_splits)
  next
    case True
    show ?thesis
    proof (cases "P (h ! i)")
      case True
      with \<open>i < n \<and> i < length h\<close> "1.prems" show ?thesis by (auto simp: first_slot.simps[of h P i n] rd_def)
    next
      case False
      with True "1.prems" have r: "first_slot h P (Suc i) n = Some (Some k)" by (simp add: first_slot.simps[of h P i n] rd_def)
      from "1.IH"[of "h ! i"] True False r
      have ih: "Suc i \<le> k \<and> k < n \<and> k < length h \<and> P (h ! k) \<and> (\<forall>m. Suc i \<le> m \<and> m < k \<longrightarrow> \<not> P (h ! m))"
        by (simp add: rd_def)
      show ?thesis
      proof (intro conjI allI impI)
        fix m assume m: "i \<le> m \<and> m < k"
        show "\<not> P (h ! m)"
        proof (cases "m = i")
          case True
          with False show ?thesis by simp
        next
          case False
          with m have "Suc i \<le> m \<and> m < k" by simp
          with ih show ?thesis by blast
        qed
      qed (use ih in auto)
    qed
  qed
qed

lemma first_slot_NoneD:
  "first_slot h P i n = Some None \<Longrightarrow> (\<forall>m. i \<le> m \<and> m < n \<longrightarrow> m < length h \<and> \<not> P (h ! m))"
proof (induction h P i n rule: first_slot.induct)
  case (1 h P i n)
  show ?case
  proof (cases "i < n")
    case False
    then show ?thesis by auto
  next
    case True
    from True "1.prems" have il: "i < length h" by (auto simp: first_slot.simps[of h P i n] rd_def split: if_splits)
    from True il "1.prems" have np: "\<not> P (h ! i)" by (auto simp: first_slot.simps[of h P i n] rd_def split: if_splits)
    from True il np "1.prems" have r: "first_slot h P (Suc i) n = Some None" by (simp add: first_slot.simps[of h P i n] rd_def)
    from "1.IH"[of "h ! i"] True il np r
    have ih: "\<forall>m. Suc i \<le> m \<and> m < n \<longrightarrow> m < length h \<and> \<not> P (h ! m)" by (simp add: rd_def)
    show ?thesis
    proof (intro allI impI)
      fix m assume "i \<le> m \<and> m < n"
      then show "m < length h \<and> \<not> P (h ! m)" using ih il np by (cases "m = i") auto
    qed
  qed
qed

lemma first_slot_total:
  "n \<le> length h \<Longrightarrow> \<exists>r. first_slot h P i n = Some r"
proof (induction h P i n rule: first_slot.induct)
  case (1 h P i n)
  show ?case
  proof (cases "i < n")
    case False
    then show ?thesis by (simp add: first_slot.simps[of h P i n])
  next
    case True
    with "1.prems" have il: "i < length h" by simp
    show ?thesis
    proof (cases "P (h ! i)")
      case True
      with \<open>i < n\<close> il show ?thesis by (simp add: first_slot.simps[of h P i n] rd_def)
    next
      case False
      from "1.IH"[of "h ! i"] True il False "1.prems" obtain r where "first_slot h P (Suc i) n = Some r"
        by (auto simp: rd_def)
      with True il False show ?thesis by (simp add: first_slot.simps[of h P i n] rd_def)
    qed
  qed
qed

lemma first_slot_found:
  assumes "n \<le> length h" "i \<le> j" "j < n" "P (h ! j)"
  shows "\<exists>k. first_slot h P i n = Some (Some k) \<and> k \<le> j"
proof -
  from first_slot_total[OF assms(1)] obtain r where r: "first_slot h P i n = Some r" by blast
  show ?thesis
  proof (cases r)
    case None
    with r first_slot_NoneD[of h P i n] assms show ?thesis by auto
  next
    case (Some k)
    with r first_slot_SomeD[of h P i n k] have "\<forall>m. i \<le> m \<and> m < k \<longrightarrow> \<not> P (h ! m)" by simp
    with assms have "k \<le> j" by (meson not_le_imp_less)
    with r Some show ?thesis by simp
  qed
qed

subsection \<open>BEST_FIT and the order of the gap index\<close>

text \<open>
  C4 at a failing input: in a BEST_FIT pool of 100 bytes, after allocating 30, 10, 10
  and 10 bytes and freeing the third and then the first block, the gap index lists
  the 30-byte gap of slot 0 before the 10-byte gap of slot 2 (the pass moved it left
  because its address is lower), and a request of 5 bytes is given slot 0.
\<close>

theorem best_fit_picks_larger_block:
  "(case run (init_mgr 1000 100 BEST_FIT) [Alloc 30, Alloc 10, Alloc 10, Alloc 10, Free 2, Free 0] of
      None \<Rightarrow> False
    | Some s \<Rightarrow>
        policy s = BEST_FIT \<and>
        num_gaps s = 3 \<and>
        map gap_node (take 3 (gap_ix s)) = [Some 0, Some 2, Some 4] \<and>
        map (\<lambda>i. rec_size (node_heap s ! i)) [0, 2, 4] = [30, 10, 40] \<and>
        used (node_heap s ! 2) = 1 \<and> fits 5 (node_heap s ! 2) \<and>
        map_option fst (mem_new_alloc None s 5) = Some (Some 0))"
  by code_simp

subsection \<open>Capacities\<close>

text \<open>
  C7 at a failing input: the first allocation in a fresh pool removes one entry from
  the gap index, and the recorded capacity of the gap index drops from 40 to 39.
\<close>

theorem gap_ix_capacity_decreases:
  "gap_ix_capacity (init_mgr 1000 100 BEST_FIT) = 40 \<and>
   map_option gap_ix_capacity (run (init_mgr 1000 100 BEST_FIT) [Alloc 30]) = Some 39"
  by code_simp

text \<open>
  The growth path of the gap index: once the fill test holds with at least one gap
  listed, the reallocated block has room for one entry and the next entry is
  written outside it, so the insertion has no defined result.
\<close>

lemma zero_gaps_short:
  "length g \<le> i \<Longrightarrow> i < n \<Longrightarrow> zero_gaps g i n = None"
  by (simp add: zero_gaps.simps[of g i n] wr_def)

lemma zero_gaps_length:
  "zero_gaps g i n = Some g' \<Longrightarrow> length g' = length g"
proof (induction g i n arbitrary: g' rule: zero_gaps.induct)
  case (1 g i n)
  show ?case
  proof (cases "i < n")
    case False
    with "1.prems" show ?thesis by (simp add: zero_gaps.simps[of g i n])
  next
    case True
    with "1.prems" obtain g1 where w: "wr g i (\<lambda>_. zero_gap) = Some g1"
      and r: "zero_gaps g1 (Suc i) n = Some g'"
      by (auto simp: zero_gaps.simps[of g i n] split: option.splits)
    from w have "length g1 = length g" by (auto simp: wr_def split: if_splits)
    with "1.IH"[OF True w r] show ?thesis by simp
  qed
qed

lemma add_to_gap_ix_over_fill:
  assumes "over_fill (num_gaps s) (gap_ix_capacity s)" and "num_gaps s \<noteq> 0"
  shows "mem_add_to_gap_ix s sz nd = None"
proof (cases "mem_resize_gap_ix s")
  case None
  then show ?thesis by (simp add: mem_add_to_gap_ix_def)
next
  case (Some r)
  obtain st1 s1 where r: "r = (st1, s1)" by (cases r)
  with Some assms(1) obtain g where z: "zero_gaps (take 1 (gap_ix s)) (unat (num_gaps s))
        (unat (gap_ix_capacity s * MEM_EXPAND_FACTOR)) = Some g"
    and s1: "s1 = s\<lparr>gap_ix := g, gap_ix_capacity := gap_ix_capacity s * MEM_EXPAND_FACTOR\<rparr>"
    by (auto simp: mem_resize_gap_ix_def Let_def split: option.splits)
  from zero_gaps_length[OF z] have "length g \<le> 1" by simp
  moreover from assms(2) have "1 \<le> unat (num_gaps s)" by (simp add: unat_gt_0 Suc_le_eq)
  ultimately have "wr (gap_ix s1) (unat (num_gaps s1)) (\<lambda>_. \<lparr>gap_size = sz, gap_node = Some nd\<rparr>) = None"
    using s1 by (simp add: wr_def)
  with Some r show ?thesis by (simp add: mem_add_to_gap_ix_def)
qed

subsection \<open>Freeing an address\<close>

text \<open>
  When the scan finds a slot with the address, the unset local is not read. When it
  finds none and the local reads as null, the call returns \<open>ALLOC_NOT_FREED\<close> and
  leaves the pool as it was.
\<close>

lemma del_alloc_found:
  assumes "first_slot (node_heap s) (\<lambda>x. a = rec_mem x) 0 (unat (total_nodes s)) = Some (Some k)"
  shows "mem_del_alloc junk s a = mem_del_alloc None s a"
  using assms by (simp add: mem_del_alloc_def)

lemma free_unknown_address_null_read:
  assumes "unat (total_nodes s) \<le> length (node_heap s)"
    and "\<forall>i < unat (total_nodes s). rec_mem (node_heap s ! i) \<noteq> a"
  shows "mem_del_alloc None s a = Some (ALLOC_NOT_FREED, s)"
proof -
  from first_slot_total[OF assms(1)] obtain r
    where r: "first_slot (node_heap s) (\<lambda>x. a = rec_mem x) 0 (unat (total_nodes s)) = Some r"
    by blast
  have "r = None"
  proof (cases r)
    case (Some k)
    with r first_slot_SomeD[of "node_heap s" "\<lambda>x. a = rec_mem x" 0 "unat (total_nodes s)" k] assms(2)
    show ?thesis by auto
  qed simp
  with r show ?thesis by (simp add: mem_del_alloc_def)
qed

text \<open>
  C9 does not hold of the code. Once the only block of a pool of 100 bytes has been
  allocated and freed, no slot is allocated; freeing the same address again finds
  slot 0, returns \<open>ALLOC_OK\<close>, takes \<open>num_allocs\<close> from 0 to \<open>0xFFFFFFFF\<close> and enters a
  second gap, whatever the unset local holds. On a fresh pool, the address 2000 is
  in no slot; when the unset local holds the address of slot 39, the call returns
  \<open>ALLOC_OK\<close> with the same change of the totals.
\<close>

theorem free_accepts_non_live_address:
  "(case run (init_mgr 1000 100 FIRST_FIT) [Alloc 100, Free 0] of
      None \<Rightarrow> False
    | Some s \<Rightarrow>
        filter (\<lambda>x. allocated x \<noteq> 0) (node_heap s) = [] \<and>
        (num_allocs s, num_gaps s) = (0, 1) \<and>
        map_option (\<lambda>r. (fst r, num_allocs (snd r), num_gaps (snd r))) (mem_del_alloc junk s 1000)
          = Some (ALLOC_OK, 0xFFFFFFFF, 2)) \<and>
   filter (\<lambda>x. rec_mem x = 2000) (node_heap (init_mgr 1000 100 FIRST_FIT)) = [] \<and>
   map_option (\<lambda>r. (fst r, num_allocs (snd r), num_gaps (snd r)))
     (mem_del_alloc (Some 39) (init_mgr 1000 100 FIRST_FIT) 2000) = Some (ALLOC_OK, 0xFFFFFFFF, 2)"
proof -
  define S where "S = the (run (init_mgr 1000 100 FIRST_FIT) [Alloc 100, Free 0])"
  have r: "run (init_mgr 1000 100 FIRST_FIT) [Alloc 100, Free 0] = Some S"
    unfolding S_def by code_simp
  have f: "first_slot (node_heap S) (\<lambda>x. 1000 = rec_mem x) 0 (unat (total_nodes S)) = Some (Some 0)"
    unfolding S_def by code_simp
  have a: "filter (\<lambda>x. allocated x \<noteq> 0) (node_heap S) = [] \<and>
        (num_allocs S, num_gaps S) = (0, 1) \<and>
        map_option (\<lambda>r. (fst r, num_allocs (snd r), num_gaps (snd r))) (mem_del_alloc None S 1000)
          = Some (ALLOC_OK, 0xFFFFFFFF, 2)"
    unfolding S_def by code_simp
  have b: "filter (\<lambda>x. rec_mem x = 2000) (node_heap (init_mgr 1000 100 FIRST_FIT)) = [] \<and>
   map_option (\<lambda>r. (fst r, num_allocs (snd r), num_gaps (snd r)))
     (mem_del_alloc (Some 39) (init_mgr 1000 100 FIRST_FIT) 2000) = Some (ALLOC_OK, 0xFFFFFFFF, 2)"
    by code_simp
  from a b show ?thesis unfolding r by (simp add: del_alloc_found[OF f, of junk])
qed

subsection \<open>Evaluating the calls on a fresh pool\<close>

lemma shift_down_zero_tail:
  "i \<le> n \<Longrightarrow> n < length g \<Longrightarrow> (\<forall>k. i < k \<and> k < length g \<longrightarrow> g ! k = z) \<Longrightarrow>
     shift_down g i n = Some (if i < n then g[i := z] else g)"
proof (induction "n - i" arbitrary: i g)
  case 0
  then have "\<not> i < n" by simp
  then show ?case by (subst shift_down.simps) simp
next
  case (Suc d)
  from Suc.hyps(2) have lt: "i < n" by simp
  with Suc.prems have r: "rd g (Suc i) = Some z" by (simp add: rd_def)
  have tail: "\<forall>k. Suc i < k \<and> k < length (g[i := z]) \<longrightarrow> g[i := z] ! k = z"
    using Suc.prems(3) by (simp add: nth_list_update)
  from Suc.hyps(2) have d: "d = n - Suc i" by simp
  from Suc.hyps(1)[OF d _ _ tail] lt Suc.prems(2)
  have ih: "shift_down (g[i := z]) (Suc i) n = Some (if Suc i < n then g[i := z, Suc i := z] else g[i := z])"
    by simp
  have same: "g[i := z, Suc i := z] = g[i := z]"
    using Suc.prems lt by (simp add: list_eq_iff_nth_eq nth_list_update)
  from lt r ih same show ?case by (simp add: shift_down.simps[of g i n])
qed

lemma replicate_update_same: "(replicate m z)[i := z] = replicate m z"
  by (induction m arbitrary: i) (simp_all split: nat.split)

lemma shift_down_replicate:
  "i < n \<Longrightarrow> n < m \<Longrightarrow> shift_down ((replicate m z)[i := e]) i n = Some (replicate m z)"
proof -
  assume a: "i < n" "n < m"
  have "shift_down ((replicate m z)[i := e]) i n = Some (((replicate m z)[i := e])[i := z])"
    using shift_down_zero_tail[of i n "(replicate m z)[i := e]" z] a by (simp add: nth_list_update)
  moreover have "((replicate m z)[i := e])[i := z] = replicate m z"
    by (simp add: replicate_update_same)
  ultimately show ?thesis by simp
qed

lemma replicate_update_same2: "(replicate m z)[i := a, j := z] = (if i = j then replicate m z else (replicate m z)[i := a])"
  by (simp add: replicate_update_same list_update_swap[of i j])

lemma upd_swap_01: "xs[Suc 0 := b, 0 := c] = xs[0 := c, Suc 0 := b]"
  by (simp add: list_update_swap)

lemma nodes_40_1: "\<not> (40::32 word) \<le> 1" "\<not> (40::32 word) \<le> 2"
  by (simp_all add: word_le_nat_alt)

lemmas loop_simps = first_slot.simps first_gap.simps gap_position.simps zero_gaps.simps

lemmas model_defs = mem_new_alloc_def mem_del_alloc_def forward_merge_def backward_merge_def split_node_def link_after_def merge_next_def
  unlink_next_def merge_prev_def unlink_prev_def
  mem_add_to_gap_ix_def mem_remove_from_gap_ix_def mem_resize_gap_ix_def mem_sort_gap_ix_def
  select_node_def fits_def rd_def wr_def get_node_def upd_node_def deref_def over_fill_def
  gap_before_def MEM_EXPAND_FACTOR_def

lemmas init_defs = init_mgr_def init_node_def zero_node_def zero_gap_def
  MEM_NODE_HEAP_INIT_CAPACITY_def MEM_GAP_IX_INIT_CAPACITY_def

lemma init_alloc_exact:
  "mem_new_alloc junk (init_mgr buf N pol) N =
     Some (Some 0, (init_mgr buf N pol)\<lparr>num_allocs := 1, alloc_size := N, num_gaps := 0,
        node_heap := (replicate 40 zero_node)[0 := (init_node buf N)\<lparr>allocated := 1\<rparr>],
        gap_ix := replicate 40 zero_gap, gap_ix_capacity := 39\<rparr>)"
  by (cases pol)
    (simp_all add: model_defs init_defs loop_simps shift_down_replicate replicate_update_same nodes_40_1)

lemma init_alloc_split:
  "R < N \<Longrightarrow> mem_new_alloc junk (init_mgr buf N pol) R =
     Some (Some 0, (init_mgr buf N pol)\<lparr>num_allocs := 1, alloc_size := R, num_gaps := 1,
        node_heap := (replicate 40 zero_node)
           [0 := \<lparr>rec_mem = buf, rec_size = R, used = 1, allocated = 1, nxt = Some 1, prv = None\<rparr>,
            1 := \<lparr>rec_mem = buf + R, rec_size = N - R, used = 1, allocated = 0, nxt = None, prv = Some 0\<rparr>],
        used_nodes := 2,
        gap_ix := (replicate 40 zero_gap)[0 := \<lparr>gap_size = N - R, gap_node = Some 1\<rparr>],
        gap_ix_capacity := 39\<rparr>)"
proof -
  assume lt: "R < N"
  then have f: "R \<le> N" "N \<noteq> R" "N - R \<noteq> 0" "N \<noteq> 0"
    by (auto simp: word_less_nat_alt word_le_nat_alt)
  show ?thesis using f
    by (cases pol)
      (simp_all add: model_defs init_defs loop_simps shift_down_replicate replicate_update_same nodes_40_1 upd_swap_01)
qed

lemma open_SomeD:
  "mem_pool_open st p buf N pol = Some (Some (q, s0), st') \<Longrightarrow> s0 = init_mgr buf N pol \<and> buf \<noteq> 0 \<and> q = p"
  by (auto simp: mem_pool_open_def Let_def split: option.splits if_splits)

lemma free_after_exact:
  "mem_del_alloc junk ((init_mgr buf N pol)\<lparr>num_allocs := 1, alloc_size := N, num_gaps := 0,
        node_heap := (replicate 40 zero_node)[0 := (init_node buf N)\<lparr>allocated := 1\<rparr>],
        gap_ix := replicate 40 zero_gap, gap_ix_capacity := 39\<rparr>) buf
   = Some (ALLOC_OK, (init_mgr buf N pol)\<lparr>gap_ix_capacity := 39\<rparr>)"
  by (simp add: model_defs init_defs loop_simps shift_down_replicate replicate_update_same nodes_40_1)

lemma free_after_split:
  "R < N \<Longrightarrow> mem_del_alloc junk ((init_mgr buf N pol)\<lparr>num_allocs := 1, alloc_size := R, num_gaps := 1,
        node_heap := (replicate 40 zero_node)
           [0 := \<lparr>rec_mem = buf, rec_size = R, used = 1, allocated = 1, nxt = Some 1, prv = None\<rparr>,
            1 := \<lparr>rec_mem = buf + R, rec_size = N - R, used = 1, allocated = 0, nxt = None, prv = Some 0\<rparr>],
        used_nodes := 2,
        gap_ix := (replicate 40 zero_gap)[0 := \<lparr>gap_size = N - R, gap_node = Some 1\<rparr>],
        gap_ix_capacity := 39\<rparr>) buf
   = Some (ALLOC_OK, (init_mgr buf N pol)\<lparr>gap_ix_capacity := 38\<rparr>)"
  by (simp add: model_defs init_defs loop_simps shift_down_replicate replicate_update_same
      replicate_update_same2 nodes_40_1 upd_swap_01)

subsection \<open>Round trip on a fresh pool\<close>

text \<open>
  C8: a pool opened with size \<open>N\<close>, one allocation of \<open>R \<le> N\<close> bytes and the release of
  that block: both calls succeed, and the pool is again the freshly opened one (one
  gap of \<open>N\<close> bytes on slot 0, no allocation, no allocated byte) in every field but
  the recorded capacity of the gap index.
\<close>

theorem open_alloc_free_round_trip:
  assumes "mem_pool_open st p buf N pol = Some (Some (q, s0), st')" and "R \<le> N"
  shows "\<exists>s1 s2. mem_new_alloc junk s0 R = Some (Some 0, s1) \<and>
           mem_del_alloc junk' s1 (rec_mem (node_heap s1 ! 0)) = Some (ALLOC_OK, s2) \<and>
           s2 = s0\<lparr>gap_ix_capacity := gap_ix_capacity s2\<rparr> \<and>
           num_gaps s2 = 1 \<and> gap_ix s2 ! 0 = \<lparr>gap_size = N, gap_node = Some 0\<rparr> \<and>
           node_heap s2 ! 0 = init_node buf N \<and> num_allocs s2 = 0 \<and> alloc_size s2 = 0"
proof -
  from open_SomeD[OF assms(1)] have s0: "s0 = init_mgr buf N pol" by simp
  show ?thesis
  proof (cases "R = N")
    case True
    have a: "rec_mem (node_heap ((init_mgr buf N pol)\<lparr>num_allocs := 1, alloc_size := N, num_gaps := 0,
        node_heap := (replicate 40 zero_node)[0 := (init_node buf N)\<lparr>allocated := 1\<rparr>],
        gap_ix := replicate 40 zero_gap, gap_ix_capacity := 39\<rparr>) ! 0) = buf"
      by (simp add: init_defs)
    have b: "(init_mgr buf N pol)\<lparr>gap_ix_capacity := 39\<rparr>
              = (init_mgr buf N pol)\<lparr>gap_ix_capacity := gap_ix_capacity ((init_mgr buf N pol)\<lparr>gap_ix_capacity := 39\<rparr>)\<rparr>"
      "num_gaps ((init_mgr buf N pol)\<lparr>gap_ix_capacity := 39\<rparr>) = 1"
      "gap_ix ((init_mgr buf N pol)\<lparr>gap_ix_capacity := 39\<rparr>) ! 0 = \<lparr>gap_size = N, gap_node = Some 0\<rparr>"
      "node_heap ((init_mgr buf N pol)\<lparr>gap_ix_capacity := 39\<rparr>) ! 0 = init_node buf N"
      "num_allocs ((init_mgr buf N pol)\<lparr>gap_ix_capacity := 39\<rparr>) = 0"
      "alloc_size ((init_mgr buf N pol)\<lparr>gap_ix_capacity := 39\<rparr>) = 0"
      by (simp_all add: init_defs)
    show ?thesis
      unfolding s0 True
      apply (intro exI conjI)
             apply (rule init_alloc_exact)
            apply (subst a, rule free_after_exact)
           apply (rule b)+
      done
  next
    case False
    with assms(2) have lt: "R < N" by simp
    have a: "rec_mem (node_heap ((init_mgr buf N pol)\<lparr>num_allocs := 1, alloc_size := R, num_gaps := 1,
        node_heap := (replicate 40 zero_node)
           [0 := \<lparr>rec_mem = buf, rec_size = R, used = 1, allocated = 1, nxt = Some 1, prv = None\<rparr>,
            1 := \<lparr>rec_mem = buf + R, rec_size = N - R, used = 1, allocated = 0, nxt = None, prv = Some 0\<rparr>],
        used_nodes := 2,
        gap_ix := (replicate 40 zero_gap)[0 := \<lparr>gap_size = N - R, gap_node = Some 1\<rparr>],
        gap_ix_capacity := 39\<rparr>) ! 0) = buf"
      by (simp add: init_defs)
    have b: "(init_mgr buf N pol)\<lparr>gap_ix_capacity := 38\<rparr>
              = (init_mgr buf N pol)\<lparr>gap_ix_capacity := gap_ix_capacity ((init_mgr buf N pol)\<lparr>gap_ix_capacity := 38\<rparr>)\<rparr>"
      "num_gaps ((init_mgr buf N pol)\<lparr>gap_ix_capacity := 38\<rparr>) = 1"
      "gap_ix ((init_mgr buf N pol)\<lparr>gap_ix_capacity := 38\<rparr>) ! 0 = \<lparr>gap_size = N, gap_node = Some 0\<rparr>"
      "node_heap ((init_mgr buf N pol)\<lparr>gap_ix_capacity := 38\<rparr>) ! 0 = init_node buf N"
      "num_allocs ((init_mgr buf N pol)\<lparr>gap_ix_capacity := 38\<rparr>) = 0"
      "alloc_size ((init_mgr buf N pol)\<lparr>gap_ix_capacity := 38\<rparr>) = 0"
      by (simp_all add: init_defs)
    show ?thesis
      unfolding s0
      apply (intro exI conjI)
             apply (rule init_alloc_split[OF lt])
            apply (subst a, rule free_after_split[OF lt])
           apply (rule b)+
      done
  qed
qed

theorem open_alloc_free_round_trip_witness:
  "\<exists>s1 s2. mem_new_alloc None (init_mgr 1000 100 BEST_FIT) 30 = Some (Some 0, s1) \<and>
      mem_del_alloc None s1 (rec_mem (node_heap s1 ! 0)) = Some (ALLOC_OK, s2) \<and>
      num_gaps s2 = 1 \<and> gap_ix s2 ! 0 = \<lparr>gap_size = 100, gap_node = Some 0\<rparr> \<and>
      num_allocs s2 = 0 \<and> alloc_size s2 = 0"
proof -
  have 1: "mem_pool_open (snd (mem_init \<lparr>pool_store = None, pool_store_size = 0, pool_store_capacity = 0\<rparr>))
             7 1000 100 BEST_FIT
           = Some (Some (7, init_mgr 1000 100 BEST_FIT),
                   \<lparr>pool_store = Some ((replicate 20 None)[0 := Some 7]), pool_store_size = 1,
                    pool_store_capacity = 20\<rparr>)"
    by (simp add: mem_pool_open_def mem_init_def mem_resize_pool_store_def over_fill_def wr_def
        MEM_POOL_STORE_INIT_CAPACITY_def)
  have 2: "(30 :: size_t) \<le> 100" by simp
  from open_alloc_free_round_trip[OF 1 2, of None None] show ?thesis by blast
qed

subsection \<open>Invariants of the node heap\<close>

lemmas exec_defs = upd_node_def get_node_def wr_def rd_def deref_def

lemma unlink_next_effect:
  assumes "k < length (node_heap s)" "j < length (node_heap s)"
    and "nxt (node_heap s ! k) = Some j" "k \<noteq> j"
    and "\<forall>n. nxt (node_heap s ! j) = Some n \<longrightarrow> n < length (node_heap s) \<and> n \<noteq> j \<and> n \<noteq> k"
  shows "unlink_next s k j =
           Some (s\<lparr>node_heap := absorb (node_heap s) k j, used_nodes := used_nodes s - 1\<rparr>)"
proof (cases "nxt (node_heap s ! j)")
  case None
  with assms show ?thesis
    by (simp add: unlink_next_def absorb_def exec_defs retire_def nth_list_update)
      (auto simp: list_eq_iff_nth_eq nth_list_update)
next
  case (Some n)
  with assms have n: "n < length (node_heap s)" "n \<noteq> j" "n \<noteq> k" by auto
  with Some assms show ?thesis
    by (simp add: unlink_next_def absorb_def exec_defs retire_def nth_list_update)
      (auto simp: list_eq_iff_nth_eq nth_list_update)
qed

lemma unlink_prev_effect:
  assumes "k < length (node_heap s)" "p < length (node_heap s)"
    and "prv (node_heap s ! k) = Some p" "k \<noteq> p"
    and "\<forall>n. nxt (node_heap s ! k) = Some n \<longrightarrow> n < length (node_heap s) \<and> n \<noteq> p \<and> n \<noteq> k"
  shows "unlink_prev s k p =
           Some (s\<lparr>node_heap := absorb (node_heap s) p k, used_nodes := used_nodes s - 1\<rparr>)"
proof (cases "nxt (node_heap s ! k)")
  case None
  with assms show ?thesis
    by (simp add: unlink_prev_def absorb_def exec_defs retire_def nth_list_update add.commute)
      (auto simp: list_eq_iff_nth_eq nth_list_update)
next
  case (Some n)
  with assms have n: "n < length (node_heap s)" "n \<noteq> p" "n \<noteq> k" by auto
  with Some assms show ?thesis
    by (simp add: unlink_prev_def absorb_def exec_defs retire_def nth_list_update add.commute)
      (auto simp: list_eq_iff_nth_eq nth_list_update)
qed

lemma link_after_effect:
  assumes "i < length (node_heap s)" "u < length (node_heap s)" "i \<noteq> u"
    and "\<forall>n. nxt (node_heap s ! i) = Some n \<longrightarrow> n < length (node_heap s) \<and> n \<noteq> i \<and> n \<noteq> u"
  shows "link_after s i u sz rem =
           Some (s\<lparr>node_heap := insert_after (node_heap s) i u sz rem, used_nodes := used_nodes s + 1\<rparr>)"
proof (cases "nxt (node_heap s ! i)")
  case None
  with assms show ?thesis
    by (simp add: link_after_def insert_after_def exec_defs nth_list_update)
      (auto simp: list_eq_iff_nth_eq nth_list_update)
next
  case (Some n)
  with assms have n: "n < length (node_heap s)" "n \<noteq> i" "n \<noteq> u" by auto
  with Some assms show ?thesis
    by (simp add: link_after_def insert_after_def exec_defs nth_list_update)
      (auto simp: list_eq_iff_nth_eq nth_list_update)
qed

lemma links_okD:
  assumes "links_ok h" "i < length h"
  shows "used (h ! i) = 0 \<or> used (h ! i) = 1"
    and "used (h ! i) = 0 \<Longrightarrow> nxt (h ! i) = None \<and> prv (h ! i) = None \<and> rec_size (h ! i) = 0"
    and "nxt (h ! i) = Some j \<Longrightarrow> j < length h \<and> used (h ! j) = 1 \<and> prv (h ! j) = Some i"
    and "prv (h ! i) = Some j \<Longrightarrow> j < length h \<and> used (h ! j) = 1 \<and> nxt (h ! j) = Some i"
  using assms unfolding links_ok_def by blast+

lemma acyclic_neq:
  assumes "acyclic_heap h" "i < length h" "nxt (h ! i) = Some j"
  shows "j \<noteq> i"
  using assms unfolding acyclic_heap_def by (metis less_irrefl)

lemma acyclic_neq2:
  assumes "acyclic_heap h" "i < length h" "j < length h" "nxt (h ! i) = Some j" "nxt (h ! j) = Some n"
  shows "n \<noteq> i"
  using assms unfolding acyclic_heap_def by (metis less_asym)

text \<open>facts about a node a and its successor b\<close>

lemma succ_facts:
  assumes "links_ok h" "acyclic_heap h" "a < length h" "nxt (h ! a) = Some b"
  shows "b < length h" "a \<noteq> b" "used (h ! b) = 1" "used (h ! a) = 1" "prv (h ! b) = Some a"
    and "\<forall>n. nxt (h ! b) = Some n \<longrightarrow> n < length h \<and> n \<noteq> b \<and> n \<noteq> a"
proof -
  from links_okD(3)[OF assms(1,3,4)] show b: "b < length h" and ub: "used (h ! b) = 1"
    and pb: "prv (h ! b) = Some a" by auto
  from acyclic_neq[OF assms(2,3,4)] show "a \<noteq> b" by simp
  from links_okD(1,2)[OF assms(1,3)] assms(4) show "used (h ! a) = 1" by auto
  show "\<forall>n. nxt (h ! b) = Some n \<longrightarrow> n < length h \<and> n \<noteq> b \<and> n \<noteq> a"
    using links_okD(3)[OF assms(1) b] acyclic_neq[OF assms(2) b] acyclic_neq2[OF assms(2,3) b assms(4)]
    by blast
qed

lemma absorb_length: "length (absorb h a b) = length h"
  by (simp add: absorb_def split: option.splits)

lemma absorb_nth:
  assumes "a < length h" "b < length h" "a \<noteq> b"
    and "\<forall>n. nxt (h ! b) = Some n \<longrightarrow> n < length h \<and> n \<noteq> b \<and> n \<noteq> a"
    and "i < length h"
  shows "absorb h a b ! i =
     (if i = b then retire (h ! b)
      else if nxt (h ! b) = Some i then (h ! i)\<lparr>prv := Some a\<rparr>
      else if i = a then (h ! a)\<lparr>rec_size := rec_size (h ! a) + rec_size (h ! b), nxt := nxt (h ! b)\<rparr>
      else h ! i)"
  using assms by (auto simp: absorb_def nth_list_update split: option.splits)

lemma absorb_links_ok:
  assumes L: "links_ok h" and A: "acyclic_heap h" and a: "a < length h" and ab: "nxt (h ! a) = Some b"
  shows "links_ok (absorb h a b)"
proof -
  from A obtain rank :: "nat \<Rightarrow> nat" where rk: "\<And>i j. i < length h \<Longrightarrow> nxt (h ! i) = Some j \<Longrightarrow> rank i < rank j"
    unfolding acyclic_heap_def by blast
  note F = succ_facts[OF L A a ab]
  let ?h = "absorb h a b"
  have nth: "\<And>i. i < length h \<Longrightarrow> ?h ! i =
     (if i = b then retire (h ! b)
      else if nxt (h ! b) = Some i then (h ! i)\<lparr>prv := Some a\<rparr>
      else if i = a then (h ! a)\<lparr>rec_size := rec_size (h ! a) + rec_size (h ! b), nxt := nxt (h ! b)\<rparr>
      else h ! i)"
    using absorb_nth[OF a F(1) F(2) F(6)] by blast
  have nx: "\<And>i j. i < length h \<Longrightarrow> nxt (h ! i) = Some j \<Longrightarrow> j < length h \<and> used (h ! j) = 1 \<and> prv (h ! j) = Some i"
    using links_okD(3)[OF L] by blast
  have pv: "\<And>i j. i < length h \<Longrightarrow> prv (h ! i) = Some j \<Longrightarrow> j < length h \<and> used (h ! j) = 1 \<and> nxt (h ! j) = Some i"
    using links_okD(4)[OF L] by blast
  have us: "\<And>i. i < length h \<Longrightarrow> used (h ! i) = 0 \<or> used (h ! i) = 1"
    using links_okD(1)[OF L] by blast
  have un: "\<And>i. i < length h \<Longrightarrow> used (h ! i) = 0 \<Longrightarrow> nxt (h ! i) = None \<and> prv (h ! i) = None \<and> rec_size (h ! i) = 0"
    using links_okD(2)[OF L] by blast
  have rab: "rank a < rank b" using rk[OF a ab] .
  show ?thesis
    unfolding links_ok_def absorb_length
  proof (intro allI impI)
    fix i assume i: "i < length h"
    have c1: "used (?h ! i) = 0 \<or> used (?h ! i) = 1"
      using us[OF i] by (auto simp: nth[OF i] retire_def)
    have c2: "used (?h ! i) = 0 \<longrightarrow> nxt (?h ! i) = None \<and> prv (?h ! i) = None \<and> rec_size (?h ! i) = 0"
      using un[OF i] F(4) i nx[OF F(1), of i] by (auto simp: nth[OF i] retire_def)
    have c3: "\<forall>j. nxt (?h ! i) = Some j \<longrightarrow> j < length h \<and> used (?h ! j) = 1 \<and> prv (?h ! j) = Some i"
    proof (intro allI impI)
      fix j assume j: "nxt (?h ! i) = Some j"
      show "j < length h \<and> used (?h ! j) = 1 \<and> prv (?h ! j) = Some i"
      proof (cases "i = b")
        case True
        with j i show ?thesis by (simp add: nth retire_def)
      next
        case ib: False
        show ?thesis
        proof (cases "i = a")
          case True
          with j i ib F have bj: "nxt (h ! b) = Some j" by (auto simp: nth split: if_splits)
          with F have jl: "j < length h" "j \<noteq> b" by auto
          from jl bj nx[OF F(1) bj] show ?thesis using True by (simp add: nth)
        next
          case ia: False
          from j i ib ia have hj: "nxt (h ! i) = Some j" by (auto simp: nth split: if_splits)
          from nx[OF i hj] have jl: "j < length h" and uj: "used (h ! j) = 1" and pj: "prv (h ! j) = Some i" by auto
          have jb: "j \<noteq> b" using pj F(5) ia by auto
          have jn: "nxt (h ! b) \<noteq> Some j" using nx[OF F(1), of j] pj ib by auto
          show ?thesis using jl uj pj jb jn by (auto simp: nth)
        qed
      qed
    qed
    have c4: "\<forall>j. prv (?h ! i) = Some j \<longrightarrow> j < length h \<and> used (?h ! j) = 1 \<and> nxt (?h ! j) = Some i"
    proof (intro allI impI)
      fix j assume j: "prv (?h ! i) = Some j"
      show "j < length h \<and> used (?h ! j) = 1 \<and> nxt (?h ! j) = Some i"
      proof (cases "i = b")
        case True
        with j i show ?thesis by (simp add: nth retire_def)
      next
        case ib: False
        show ?thesis
        proof (cases "nxt (h ! b) = Some i")
          case True
          with j i ib have "j = a" by (simp add: nth)
          with True a F ib show ?thesis by (simp add: nth)
        next
          case nb: False
          from j i ib nb have hj: "prv (h ! i) = Some j" by (auto simp: nth split: if_splits)
          from pv[OF i hj] have jl: "j < length h" and uj: "used (h ! j) = 1" and nj: "nxt (h ! j) = Some i" by auto
          have jb: "j \<noteq> b" using nj nb by auto
          have ja: "j \<noteq> a" using nj ab ib by auto
          show ?thesis using jl uj nj jb ja by (auto simp: nth)
        qed
      qed
    qed
    from c1 c2 c3 c4
    show "(used (?h ! i) = 0 \<or> used (?h ! i) = 1) \<and>
          (used (?h ! i) = 0 \<longrightarrow> nxt (?h ! i) = None \<and> prv (?h ! i) = None \<and> rec_size (?h ! i) = 0) \<and>
          (\<forall>j. nxt (?h ! i) = Some j \<longrightarrow> j < length h \<and> used (?h ! j) = 1 \<and> prv (?h ! j) = Some i) \<and>
          (\<forall>j. prv (?h ! i) = Some j \<longrightarrow> j < length h \<and> used (?h ! j) = 1 \<and> nxt (?h ! j) = Some i)"
      by blast
  qed
qed

lemma absorb_acyclic:
  assumes L: "links_ok h" and A: "acyclic_heap h" and a: "a < length h" and ab: "nxt (h ! a) = Some b"
  shows "acyclic_heap (absorb h a b)"
proof -
  from A obtain rank :: "nat \<Rightarrow> nat" where rk: "\<And>i j. i < length h \<Longrightarrow> nxt (h ! i) = Some j \<Longrightarrow> rank i < rank j"
    unfolding acyclic_heap_def by blast
  note F = succ_facts[OF L A a ab]
  note nth = absorb_nth[OF a F(1) F(2) F(6)]
  have "\<forall>i<length (absorb h a b). \<forall>j. nxt (absorb h a b ! i) = Some j \<longrightarrow> rank i < rank j"
  proof (intro allI impI)
    fix i j assume i: "i < length (absorb h a b)" and j: "nxt (absorb h a b ! i) = Some j"
    from i have il: "i < length h" by (simp add: absorb_length)
    show "rank i < rank j"
    proof (cases "i = a")
      case True
      with j il F have "nxt (h ! b) = Some j" by (auto simp: nth split: if_splits)
      from rk[OF F(1) this] rk[OF a ab] True show ?thesis by simp
    next
      case False
      with j il have "nxt (h ! i) = Some j" by (auto simp: nth retire_def split: if_splits)
      from rk[OF il this] show ?thesis .
    qed
  qed
  then show ?thesis unfolding acyclic_heap_def by blast
qed

lemma absorb_head_ok:
  assumes L: "links_ok h" and A: "acyclic_heap h" and H: "head_ok h" and a: "a < length h" and ab: "nxt (h ! a) = Some b"
  shows "head_ok (absorb h a b)"
proof -
  note F = succ_facts[OF L A a ab]
  from H have z: "0 < length h" "used (h ! 0) = 1" "prv (h ! 0) = None" by (auto simp: head_ok_def)
  note nth = absorb_nth[OF a F(1) F(2) F(6) z(1)]
  have b0: "b \<noteq> 0"
  proof
    assume "b = 0"
    with F(5) z(3) show False by simp
  qed
  have n0: "nxt (h ! b) \<noteq> Some 0" using links_okD(3)[OF L F(1), of 0] z(3) by auto
  show ?thesis using z b0 n0 by (auto simp: head_ok_def absorb_length nth)
qed

lemma absorb_used_slots:
  assumes L: "links_ok h" and A: "acyclic_heap h" and a: "a < length h" and ab: "nxt (h ! a) = Some b"
  shows "used_slots (absorb h a b) = used_slots h - {b}" and "b \<in> used_slots h"
proof -
  note F = succ_facts[OF L A a ab]
  note nth = absorb_nth[OF a F(1) F(2) F(6)]
  show "used_slots (absorb h a b) = used_slots h - {b}"
    by (auto simp: used_slots_def absorb_length nth retire_def split: if_splits)
  show "b \<in> used_slots h" using F by (simp add: used_slots_def)
qed

lemma absorb_fields:
  assumes L: "links_ok h" and A: "acyclic_heap h" and a: "a < length h" and ab: "nxt (h ! a) = Some b"
  shows "\<forall>i<length h. allocated (absorb h a b ! i) = allocated (h ! i)"
    and "nxt (absorb h a b ! a) = nxt (h ! b)"
    and "prv (absorb h a b ! a) = prv (h ! a)"
    and "\<forall>i<length h. i \<noteq> a \<and> i \<noteq> b \<longrightarrow> nxt (absorb h a b ! i) = nxt (h ! i)"
    and "nxt (absorb h a b ! b) = None"
proof -
  note F = succ_facts[OF L A a ab]
  note nth = absorb_nth[OF a F(1) F(2) F(6)]
  show "\<forall>i<length h. allocated (absorb h a b ! i) = allocated (h ! i)"
    by (auto simp: nth retire_def)
  show "nxt (absorb h a b ! a) = nxt (h ! b)" using F a by (auto simp: nth)
  show "prv (absorb h a b ! a) = prv (h ! a)" using F a by (auto simp: nth)
  show "\<forall>i<length h. i \<noteq> a \<and> i \<noteq> b \<longrightarrow> nxt (absorb h a b ! i) = nxt (h ! i)"
    by (auto simp: nth)
  show "nxt (absorb h a b ! b) = None" using F by (simp add: nth retire_def)
qed

text \<open>forward merge: node k (just freed) absorbs its free successor j\<close>

lemma absorb_noadj_forward:
  assumes L: "links_ok h" and A: "acyclic_heap h" and k: "k < length h" and kj: "nxt (h ! k) = Some j"
    and N: "noadj_except h k" and fj: "allocated (h ! j) = 0"
  shows "noadj_except (absorb h k j) k"
    and "\<forall>n. nxt (absorb h k j ! k) = Some n \<longrightarrow> allocated (absorb h k j ! n) \<noteq> 0"
proof -
  note F = succ_facts[OF L A k kj]
  note G = absorb_fields[OF L A k kj]
  show "noadj_except (absorb h k j) k"
    unfolding noadj_except_def absorb_length
  proof (intro allI impI)
    fix i n assume i: "i < length h"
      and c: "i \<noteq> k \<and> n \<noteq> k \<and> allocated (absorb h k j ! i) = 0 \<and> nxt (absorb h k j ! i) = Some n"
    from c G(5) have ij: "i \<noteq> j" by auto
    with c i G(4) have hn: "nxt (h ! i) = Some n" by auto
    from links_okD(3)[OF L i hn] have nl: "n < length h" by simp
    from c i G(1) have "allocated (h ! i) = 0" by auto
    with N i c hn have "allocated (h ! n) \<noteq> 0" unfolding noadj_except_def by blast
    with nl G(1) show "allocated (absorb h k j ! n) \<noteq> 0" by auto
  qed
  show "\<forall>n. nxt (absorb h k j ! k) = Some n \<longrightarrow> allocated (absorb h k j ! n) \<noteq> 0"
  proof (intro allI impI)
    fix n assume "nxt (absorb h k j ! k) = Some n"
    with G(2) have jn: "nxt (h ! j) = Some n" by simp
    with F(6) have nl: "n < length h" "n \<noteq> k" by auto
    from N F(1) F(2) nl jn fj have "allocated (h ! n) \<noteq> 0" unfolding noadj_except_def by blast
    with nl G(1) show "allocated (absorb h k j ! n) \<noteq> 0" by auto
  qed
qed

text \<open>backward merge: the free predecessor p absorbs node k\<close>

lemma absorb_noadj_backward:
  assumes L: "links_ok h" and A: "acyclic_heap h" and p: "p < length h" and pk: "nxt (h ! p) = Some k"
    and N: "noadj_except h k"
    and S: "\<forall>n. nxt (h ! k) = Some n \<longrightarrow> allocated (h ! n) \<noteq> 0"
  shows "noadj (absorb h p k)"
  unfolding noadj_def absorb_length
proof (intro allI impI)
  note F = succ_facts[OF L A p pk]
  note G = absorb_fields[OF L A p pk]
  fix i n assume i: "i < length h"
    and c: "allocated (absorb h p k ! i) = 0 \<and> nxt (absorb h p k ! i) = Some n"
  from c G(5) have ik: "i \<noteq> k" by auto
  show "allocated (absorb h p k ! n) \<noteq> 0"
  proof (cases "i = p")
    case True
    with c G(2) have kn: "nxt (h ! k) = Some n" by simp
    with F(6) have nl: "n < length h" by auto
    from S kn have "allocated (h ! n) \<noteq> 0" by blast
    with nl G(1) show ?thesis by auto
  next
    case False
    with ik c i G(4) have hn: "nxt (h ! i) = Some n" by auto
    from links_okD(3)[OF L i hn] have nl: "n < length h" and pn: "prv (h ! n) = Some i" by auto
    have nk: "n \<noteq> k" using pn F(5) False by auto
    from c i G(1) have "allocated (h ! i) = 0" by auto
    with N i ik nk hn have "allocated (h ! n) \<noteq> 0" unfolding noadj_except_def by blast
    with nl G(1) show ?thesis by auto
  qed
qed

lemma insert_after_length: "length (insert_after h i u sz rem) = length h"
  by (simp add: insert_after_def Let_def split: option.splits)

lemma insert_after_nth:
  assumes "i < length h" "u < length h" "i \<noteq> u"
    and "\<forall>n. nxt (h ! i) = Some n \<longrightarrow> n < length h \<and> n \<noteq> i \<and> n \<noteq> u"
    and "m < length h"
  shows "insert_after h i u sz rem ! m =
     (if m = i then (h ! i)\<lparr>nxt := Some u\<rparr>
      else if nxt (h ! i) = Some m then (h ! m)\<lparr>prv := Some u\<rparr>
      else if m = u then \<lparr>rec_mem = rec_mem (h ! i) + sz, rec_size = rem, used = 1,
                           allocated = 0, nxt = nxt (h ! i), prv = Some i\<rparr>
      else h ! m)"
proof (cases "nxt (h ! i)")
  case None
  with assms show ?thesis by (simp add: insert_after_def Let_def nth_list_update)
next
  case (Some n)
  with assms have "n < length h" "n \<noteq> i" "n \<noteq> u" by auto
  with Some assms show ?thesis by (simp add: insert_after_def Let_def nth_list_update)
qed

text \<open>facts about a used node i and an unused slot u\<close>

lemma unused_facts:
  assumes L: "links_ok h" and A: "acyclic_heap h" and i: "i < length h" and u: "u < length h"
    and ui: "used (h ! i) = 1" and uu: "used (h ! u) = 0"
  shows "i \<noteq> u"
    and "\<forall>n. nxt (h ! i) = Some n \<longrightarrow> n < length h \<and> n \<noteq> i \<and> n \<noteq> u"
    and "\<forall>m<length h. nxt (h ! m) \<noteq> Some u \<and> prv (h ! m) \<noteq> Some u"
    and "nxt (h ! u) = None" "prv (h ! u) = None"
proof -
  show "i \<noteq> u" using ui uu by auto
  show "\<forall>n. nxt (h ! i) = Some n \<longrightarrow> n < length h \<and> n \<noteq> i \<and> n \<noteq> u"
  proof (intro allI impI)
    fix n assume n: "nxt (h ! i) = Some n"
    from links_okD(3)[OF L i n] have "n < length h" "used (h ! n) = 1" by auto
    moreover from acyclic_neq[OF A i n] have "n \<noteq> i" .
    ultimately show "n < length h \<and> n \<noteq> i \<and> n \<noteq> u" using uu by auto
  qed
  show "\<forall>m<length h. nxt (h ! m) \<noteq> Some u \<and> prv (h ! m) \<noteq> Some u"
  proof (intro allI impI conjI)
    fix m assume m: "m < length h"
    show "nxt (h ! m) \<noteq> Some u"
    proof
      assume "nxt (h ! m) = Some u"
      from links_okD(3)[OF L m this] uu show False by simp
    qed
    show "prv (h ! m) \<noteq> Some u"
    proof
      assume "prv (h ! m) = Some u"
      from links_okD(4)[OF L m this] uu show False by simp
    qed
  qed
  show "nxt (h ! u) = None" "prv (h ! u) = None" using links_okD(2)[OF L u uu] by auto
qed

lemma insert_after_links_ok:
  assumes L: "links_ok h" and A: "acyclic_heap h" and i: "i < length h" and u: "u < length h"
    and ui: "used (h ! i) = 1" and uu: "used (h ! u) = 0"
  shows "links_ok (insert_after h i u sz rem)"
proof -
  note F = unused_facts[OF L A i u ui uu]
  let ?h = "insert_after h i u sz rem"
  note nth = insert_after_nth[OF i u F(1) F(2)]
  have nx: "\<And>i j. i < length h \<Longrightarrow> nxt (h ! i) = Some j \<Longrightarrow> j < length h \<and> used (h ! j) = 1 \<and> prv (h ! j) = Some i"
    using links_okD(3)[OF L] by blast
  have pv: "\<And>i j. i < length h \<Longrightarrow> prv (h ! i) = Some j \<Longrightarrow> j < length h \<and> used (h ! j) = 1 \<and> nxt (h ! j) = Some i"
    using links_okD(4)[OF L] by blast
  have us: "\<And>i. i < length h \<Longrightarrow> used (h ! i) = 0 \<or> used (h ! i) = 1"
    using links_okD(1)[OF L] by blast
  have un: "\<And>i. i < length h \<Longrightarrow> used (h ! i) = 0 \<Longrightarrow> nxt (h ! i) = None \<and> prv (h ! i) = None \<and> rec_size (h ! i) = 0"
    using links_okD(2)[OF L] by blast
  show ?thesis
    unfolding links_ok_def insert_after_length
  proof (intro allI impI)
    fix m assume m: "m < length h"
    have cases4: "m = i \<or> (m \<noteq> i \<and> nxt (h ! i) = Some m) \<or> (m \<noteq> i \<and> nxt (h ! i) \<noteq> Some m \<and> m = u)
        \<or> (m \<noteq> i \<and> nxt (h ! i) \<noteq> Some m \<and> m \<noteq> u)" by blast
    have c1: "used (?h ! m) = 0 \<or> used (?h ! m) = 1"
      using cases4
    proof (elim disjE conjE)
      assume "m = i" then show ?thesis using ui by (simp add: nth m i u)
    next
      assume "m \<noteq> i" "nxt (h ! i) = Some m" then show ?thesis using nx[OF i, of m] by (simp add: nth m i u)
    next
      assume "m \<noteq> i" "nxt (h ! i) \<noteq> Some m" "m = u" then show ?thesis using m by (simp add: nth)
    next
      assume "m \<noteq> i" "nxt (h ! i) \<noteq> Some m" "m \<noteq> u" then show ?thesis using us[OF m] by (simp add: nth m i u)
    qed
    have c2: "used (?h ! m) = 0 \<longrightarrow> nxt (?h ! m) = None \<and> prv (?h ! m) = None \<and> rec_size (?h ! m) = 0"
      using cases4
    proof (elim disjE conjE)
      assume "m = i" then show ?thesis using ui by (simp add: nth m i u)
    next
      assume "m \<noteq> i" "nxt (h ! i) = Some m" then show ?thesis using nx[OF i, of m] by (simp add: nth m i u)
    next
      assume "m \<noteq> i" "nxt (h ! i) \<noteq> Some m" "m = u" then show ?thesis using m by (simp add: nth)
    next
      assume "m \<noteq> i" "nxt (h ! i) \<noteq> Some m" "m \<noteq> u" then show ?thesis using un[OF m] by (simp add: nth m i u)
    qed
    have c3: "\<forall>j. nxt (?h ! m) = Some j \<longrightarrow> j < length h \<and> used (?h ! j) = 1 \<and> prv (?h ! j) = Some m"
    proof (intro allI impI)
      fix j assume j: "nxt (?h ! m) = Some j"
      show "j < length h \<and> used (?h ! j) = 1 \<and> prv (?h ! j) = Some m"
      proof (cases "m = i")
        case True
        with j m have "j = u" by (simp add: nth)
        with u F(1) F(2) True show ?thesis by (auto simp: nth)
      next
        case mi: False
        show ?thesis
        proof (cases "m = u")
          case True
          with j m mi F(2) have ij: "nxt (h ! i) = Some j" by (auto simp: nth split: if_splits)
          with F(2) have jl: "j < length h" "j \<noteq> i" "j \<noteq> u" by auto
          from nx[OF i ij] jl ij True show ?thesis by (simp add: nth)
        next
          case mu: False
          from j m mi mu have hj: "nxt (h ! m) = Some j" by (auto simp: nth split: if_splits)
          from nx[OF m hj] have jl: "j < length h" and uj: "used (h ! j) = 1" and pj: "prv (h ! j) = Some m" by auto
          have ju: "j \<noteq> u" using uj uu by auto
          have jn: "nxt (h ! i) \<noteq> Some j" using nx[OF i, of j] pj mi by auto
          show ?thesis using jl uj pj ju jn by (auto simp: nth)
        qed
      qed
    qed
    have c4: "\<forall>j. prv (?h ! m) = Some j \<longrightarrow> j < length h \<and> used (?h ! j) = 1 \<and> nxt (?h ! j) = Some m"
    proof (intro allI impI)
      fix j assume j: "prv (?h ! m) = Some j"
      show "j < length h \<and> used (?h ! j) = 1 \<and> nxt (?h ! j) = Some m"
      proof (cases "m = i")
        case True
        with j m have hj: "prv (h ! i) = Some j" by (simp add: nth)
        from pv[OF i hj] have jl: "j < length h" and uj: "used (h ! j) = 1" and nj: "nxt (h ! j) = Some i" by auto
        have ji: "j \<noteq> i" using acyclic_neq[OF A jl nj] by simp
        have ju: "j \<noteq> u" using uj uu by auto
        have jn: "nxt (h ! i) \<noteq> Some j" using acyclic_neq2[OF A jl i nj] by auto
        show ?thesis using jl uj nj ji ju jn True by (auto simp: nth)
      next
        case mi: False
        show ?thesis
        proof (cases "nxt (h ! i) = Some m")
          case True
          with j m mi have "j = u" by (simp add: nth)
          with u F(1) F(2) True mi show ?thesis by (auto simp: nth)
        next
          case nm: False
          show ?thesis
          proof (cases "m = u")
            case True
            with j m mi nm have "j = i" by (simp add: nth)
            with i ui True show ?thesis by (simp add: nth)
          next
            case mu: False
            from j m mi nm mu have hj: "prv (h ! m) = Some j" by (simp add: nth)
            from pv[OF m hj] have jl: "j < length h" and uj: "used (h ! j) = 1" and nj: "nxt (h ! j) = Some m" by auto
            have ji: "j \<noteq> i" using nj nm by auto
            have ju: "j \<noteq> u" using uj uu by auto
            show ?thesis using jl uj nj ji ju by (auto simp: nth)
          qed
        qed
      qed
    qed
    from c1 c2 c3 c4
    show "(used (?h ! m) = 0 \<or> used (?h ! m) = 1) \<and>
          (used (?h ! m) = 0 \<longrightarrow> nxt (?h ! m) = None \<and> prv (?h ! m) = None \<and> rec_size (?h ! m) = 0) \<and>
          (\<forall>j. nxt (?h ! m) = Some j \<longrightarrow> j < length h \<and> used (?h ! j) = 1 \<and> prv (?h ! j) = Some m) \<and>
          (\<forall>j. prv (?h ! m) = Some j \<longrightarrow> j < length h \<and> used (?h ! j) = 1 \<and> nxt (?h ! j) = Some m)"
      by blast
  qed
qed

lemma insert_after_acyclic:
  assumes L: "links_ok h" and A: "acyclic_heap h" and i: "i < length h" and u: "u < length h"
    and ui: "used (h ! i) = 1" and uu: "used (h ! u) = 0"
  shows "acyclic_heap (insert_after h i u sz rem)"
proof -
  from A obtain rank :: "nat \<Rightarrow> nat" where rk: "\<And>i j. i < length h \<Longrightarrow> nxt (h ! i) = Some j \<Longrightarrow> rank i < rank j"
    unfolding acyclic_heap_def by blast
  note F = unused_facts[OF L A i u ui uu]
  note nth = insert_after_nth[OF i u F(1) F(2)]
  define rank' where "rank' x = (if x = u then 2 * rank i + 1 else 2 * rank x)" for x
  have "\<forall>m<length (insert_after h i u sz rem). \<forall>j. nxt (insert_after h i u sz rem ! m) = Some j \<longrightarrow> rank' m < rank' j"
  proof (intro allI impI)
    fix m j assume m0: "m < length (insert_after h i u sz rem)" and j: "nxt (insert_after h i u sz rem ! m) = Some j"
    from m0 have m: "m < length h" by (simp add: insert_after_length)
    show "rank' m < rank' j"
    proof (cases "m = i")
      case True
      with j m have "j = u" by (simp add: nth)
      with True F(1) show ?thesis by (simp add: rank'_def)
    next
      case mi: False
      show ?thesis
      proof (cases "m = u")
        case True
        with j m mi F(2) have ij: "nxt (h ! i) = Some j" by (auto simp: nth split: if_splits)
        with F(2) have "j \<noteq> u" by auto
        with rk[OF i ij] True show ?thesis by (simp add: rank'_def)
      next
        case mu: False
        from j m mi mu have hj: "nxt (h ! m) = Some j" by (auto simp: nth split: if_splits)
        from F(3) m hj have "j \<noteq> u" by auto
        with rk[OF m hj] mu show ?thesis by (simp add: rank'_def)
      qed
    qed
  qed
  then show ?thesis unfolding acyclic_heap_def by blast
qed

lemma insert_after_head_ok:
  assumes L: "links_ok h" and A: "acyclic_heap h" and H: "head_ok h" and i: "i < length h" and u: "u < length h"
    and ui: "used (h ! i) = 1" and uu: "used (h ! u) = 0"
  shows "head_ok (insert_after h i u sz rem)"
proof -
  note F = unused_facts[OF L A i u ui uu]
  from H have z: "0 < length h" "used (h ! 0) = 1" "prv (h ! 0) = None" by (auto simp: head_ok_def)
  note nth = insert_after_nth[OF i u F(1) F(2) z(1)]
  have u0: "u \<noteq> 0"
  proof
    assume "u = 0"
    with uu z(2) show False by simp
  qed
  have n0: "nxt (h ! i) \<noteq> Some 0"
  proof
    assume "nxt (h ! i) = Some 0"
    from links_okD(3)[OF L i this] z(3) show False by simp
  qed
  show ?thesis using z u0 n0 by (auto simp: head_ok_def insert_after_length nth)
qed

lemma insert_after_used_slots:
  assumes L: "links_ok h" and A: "acyclic_heap h" and i: "i < length h" and u: "u < length h"
    and ui: "used (h ! i) = 1" and uu: "used (h ! u) = 0"
  shows "used_slots (insert_after h i u sz rem) = insert u (used_slots h)" and "u \<notin> used_slots h"
proof -
  note F = unused_facts[OF L A i u ui uu]
  note nth = insert_after_nth[OF i u F(1) F(2)]
  show "used_slots (insert_after h i u sz rem) = insert u (used_slots h)"
    using u ui F(2) by (auto simp: used_slots_def insert_after_length nth split: if_splits)
  show "u \<notin> used_slots h" using uu by (simp add: used_slots_def)
qed

lemma insert_after_noadj:
  assumes L: "links_ok h" and A: "acyclic_heap h" and i: "i < length h" and u: "u < length h"
    and ui: "used (h ! i) = 1" and uu: "used (h ! u) = 0"
    and N: "noadj h" and ai: "allocated (h ! i) \<noteq> 0"
    and S: "\<forall>n. nxt (h ! i) = Some n \<longrightarrow> allocated (h ! n) \<noteq> 0"
  shows "noadj (insert_after h i u sz rem)"
  unfolding noadj_def insert_after_length
proof (intro allI impI)
  note F = unused_facts[OF L A i u ui uu]
  note nth = insert_after_nth[OF i u F(1) F(2)]
  fix m j assume m: "m < length h"
    and c: "allocated (insert_after h i u sz rem ! m) = 0 \<and> nxt (insert_after h i u sz rem ! m) = Some j"
  have mi: "m \<noteq> i" using c ai m by (auto simp: nth)
  show "allocated (insert_after h i u sz rem ! j) \<noteq> 0"
  proof (cases "m = u")
    case True
    with c m mi F(2) have ij: "nxt (h ! i) = Some j" by (auto simp: nth split: if_splits)
    with F(2) have jl: "j < length h" "j \<noteq> i" "j \<noteq> u" by auto
    from S ij have "allocated (h ! j) \<noteq> 0" by blast
    with jl ij show ?thesis by (simp add: nth)
  next
    case mu: False
    from c m mi mu have hj: "nxt (h ! m) = Some j" and am: "allocated (h ! m) = 0"
      by (auto simp: nth split: if_splits)
    from links_okD(3)[OF L m hj] have jl: "j < length h" by simp
    from F(3) m hj have ju: "j \<noteq> u" by auto
    from N m am hj have "allocated (h ! j) \<noteq> 0" unfolding noadj_def by blast
    with jl ju ai show ?thesis by (auto simp: nth)
  qed
qed

text \<open>an update of one node that keeps its links and its used flag\<close>

lemma flag_update:
  assumes k: "k < length h"
    and same: "used x = used (h ! k)" "nxt x = nxt (h ! k)" "prv x = prv (h ! k)"
    and sz: "used (h ! k) = 0 \<longrightarrow> rec_size x = 0"
  shows "links_ok h \<Longrightarrow> links_ok (h[k := x])"
    and "acyclic_heap h \<Longrightarrow> acyclic_heap (h[k := x])"
    and "head_ok h \<Longrightarrow> head_ok (h[k := x])"
    and "used_slots (h[k := x]) = used_slots h"
proof -
  have f: "used (h[k := x] ! m) = used (h ! m) \<and> nxt (h[k := x] ! m) = nxt (h ! m)
           \<and> prv (h[k := x] ! m) = prv (h ! m) \<and> (used (h ! m) = 0 \<and> rec_size (h ! m) = 0 \<longrightarrow> rec_size (h[k := x] ! m) = 0)"
    if "m < length h" for m
    using that same sz k by (cases "m = k") (simp_all add: nth_list_update)
  show "links_ok h \<Longrightarrow> links_ok (h[k := x])"
    unfolding links_ok_def length_list_update
  proof (intro allI impI)
    fix i assume L: "\<forall>i<length h.
            (used (h ! i) = 0 \<or> used (h ! i) = 1) \<and>
            (used (h ! i) = 0 \<longrightarrow> nxt (h ! i) = None \<and> prv (h ! i) = None \<and> rec_size (h ! i) = 0) \<and>
            (\<forall>j. nxt (h ! i) = Some j \<longrightarrow> j < length h \<and> used (h ! j) = 1 \<and> prv (h ! j) = Some i) \<and>
            (\<forall>j. prv (h ! i) = Some j \<longrightarrow> j < length h \<and> used (h ! j) = 1 \<and> nxt (h ! j) = Some i)"
      and i: "i < length h"
    from L i have Li: "(used (h ! i) = 0 \<or> used (h ! i) = 1) \<and>
            (used (h ! i) = 0 \<longrightarrow> nxt (h ! i) = None \<and> prv (h ! i) = None \<and> rec_size (h ! i) = 0) \<and>
            (\<forall>j. nxt (h ! i) = Some j \<longrightarrow> j < length h \<and> used (h ! j) = 1 \<and> prv (h ! j) = Some i) \<and>
            (\<forall>j. prv (h ! i) = Some j \<longrightarrow> j < length h \<and> used (h ! j) = 1 \<and> nxt (h ! j) = Some i)"
      by blast
    show "(used (h[k := x] ! i) = 0 \<or> used (h[k := x] ! i) = 1) \<and>
          (used (h[k := x] ! i) = 0 \<longrightarrow> nxt (h[k := x] ! i) = None \<and> prv (h[k := x] ! i) = None \<and> rec_size (h[k := x] ! i) = 0) \<and>
          (\<forall>j. nxt (h[k := x] ! i) = Some j \<longrightarrow> j < length h \<and> used (h[k := x] ! j) = 1 \<and> prv (h[k := x] ! j) = Some i) \<and>
          (\<forall>j. prv (h[k := x] ! i) = Some j \<longrightarrow> j < length h \<and> used (h[k := x] ! j) = 1 \<and> nxt (h[k := x] ! j) = Some i)"
      using Li f[OF i] f by metis
  qed
  show "acyclic_heap h \<Longrightarrow> acyclic_heap (h[k := x])"
    unfolding acyclic_heap_def length_list_update using f by metis
  show "head_ok h \<Longrightarrow> head_ok (h[k := x])"
    unfolding head_ok_def length_list_update using f by metis
  show "used_slots (h[k := x]) = used_slots h"
    unfolding used_slots_def length_list_update using f by auto
qed

lemma remove_fields:
  assumes "mem_remove_from_gap_ix s nd = Some (st, s')"
  shows "node_heap s' = node_heap s" "total_nodes s' = total_nodes s" "used_nodes s' = used_nodes s"
    "mem s' = mem s" "num_allocs s' = num_allocs s" "alloc_size s' = alloc_size s"
    "policy s' = policy s" "total_size s' = total_size s" "num_gaps s' = num_gaps s - 1"
    "st = ALLOC_OK"
  using assms by (auto simp: mem_remove_from_gap_ix_def split: option.splits)

lemma add_fields:
  assumes "mem_add_to_gap_ix s sz nd = Some (st, s')"
  shows "node_heap s' = node_heap s" "total_nodes s' = total_nodes s" "used_nodes s' = used_nodes s"
    "mem s' = mem s" "num_allocs s' = num_allocs s" "alloc_size s' = alloc_size s"
    "policy s' = policy s" "total_size s' = total_size s" "num_gaps s' = num_gaps s + 1"
    "st = ALLOC_OK"
  using assms
  by (auto simp: mem_add_to_gap_ix_def mem_resize_gap_ix_def mem_sort_gap_ix_def Let_def
      split: option.splits if_splits)

lemma merge_prevD:
  assumes mp: "merge_prev s k p = Some (st, s')"
  shows "\<exists>s1 s2 s11 pr11 st3.
           mem_remove_from_gap_ix s p = Some (ALLOC_OK, s1) \<and>
           mem_remove_from_gap_ix s1 k = Some (ALLOC_OK, s2) \<and>
           unlink_prev s2 k p = Some s11 \<and> get_node s11 p = Some pr11 \<and>
           mem_add_to_gap_ix s11 (rec_size pr11) p = Some (st3, s') \<and> st = ALLOC_OK"
proof -
  from mp obtain st1 s1 where r1: "mem_remove_from_gap_ix s p = Some (st1, s1)"
    by (auto simp: merge_prev_def bind_eq_Some_conv)
  note R1 = remove_fields(10)[OF r1]
  from mp r1 R1 obtain st2 s2 where r2: "mem_remove_from_gap_ix s1 k = Some (st2, s2)"
    by (auto simp: merge_prev_def bind_eq_Some_conv)
  note R2 = remove_fields(10)[OF r2]
  from mp r1 r2 R1 R2 show ?thesis
    by (auto simp: merge_prev_def bind_eq_Some_conv)
qed

lemma backward_merge_status:
  assumes "backward_merge s k = Some (st, s')"
  shows "st = ALLOC_OK"
  using assms merge_prevD
  by (fastforce simp: backward_merge_def bind_eq_Some_conv split: option.splits if_splits)

lemma del_alloc_status:
  assumes "mem_del_alloc junk s a = Some (st, s')"
  shows "st = ALLOC_OK \<or> (st = ALLOC_NOT_FREED \<and> s' = s)"
  using assms backward_merge_status
  by (fastforce simp: mem_del_alloc_def bind_eq_Some_conv split: option.splits if_splits)

lemma used_slots_bound: "length h = 40 \<Longrightarrow> finite (used_slots h) \<and> card (used_slots h) \<le> 40"
proof -
  assume l: "length h = 40"
  have sub: "used_slots h \<subseteq> {..<40}" using l by (auto simp: used_slots_def)
  then have "finite (used_slots h)" by (rule finite_subset) simp
  moreover from sub have "card (used_slots h) \<le> card {..<40::nat}" by (rule card_mono[rotated]) simp
  ultimately show ?thesis by simp
qed

lemma used_nodes_dec:
  assumes "length h = 40" "unat (w :: unsigned) = card (used_slots h)" "b \<in> used_slots h"
  shows "unat (w - 1) = card (used_slots h - {b})"
proof -
  from used_slots_bound[OF assms(1)] have f: "finite (used_slots h)" by simp
  with assms(3) have c: "card (used_slots h - {b}) = card (used_slots h) - 1" "0 < card (used_slots h)"
    by (auto simp: card_gt_0_iff)
  with assms(2) have "w \<noteq> 0" by (auto simp: unat_eq_0)
  then have "unat (w - 1) = unat w - 1" by (simp add: unat_minus_one)
  with c assms(2) show ?thesis by simp
qed

lemma used_nodes_inc:
  assumes "length h = 40" "unat (w :: unsigned) = card (used_slots h)" "u \<notin> used_slots h"
  shows "unat (w + 1) = card (insert u (used_slots h))"
proof -
  from used_slots_bound[OF assms(1)] have f: "finite (used_slots h)" "card (used_slots h) \<le> 40" by simp_all
  with assms(3) have c: "card (insert u (used_slots h)) = card (used_slots h) + 1" by simp
  from f assms(2) have "unat w + 1 < 2 ^ 32" by simp
  then have "unat (w + 1) = unat w + 1" by (simp add: unat_word_ariths)
  with c assms(2) show ?thesis by simp
qed

lemma used_one_update: "used x = 1 \<Longrightarrow> x\<lparr>used := 1\<rparr> = x"
  by simp

lemma upd_used_noop:
  assumes "j < length (node_heap s)" "used (node_heap s ! j) = 1"
  shows "upd_node s j (\<lambda>x. x\<lparr>used := 1\<rparr>) = Some s"
  using assms by (simp add: upd_node_def wr_def used_one_update)

lemma forward_merge_mid:
  assumes M: "mid_inv s k 1" and F: "forward_merge s k = Some s'"
  shows "mid_inv s' k 1 \<and> (\<forall>n. nxt (node_heap s' ! k) = Some n \<longrightarrow> allocated (node_heap s' ! n) \<noteq> 0)"
proof -
  let ?h = "node_heap s"
  from M have len: "length ?h = 40" and k: "k < length ?h" and L: "links_ok ?h" and A: "acyclic_heap ?h"
    and H: "head_ok ?h" and N: "noadj_except ?h k" and fk: "allocated (?h ! k) = 0"
    and cnt: "unat (used_nodes s) = card (used_slots ?h)"
    and ctr: "num_allocs s + num_gaps s + 1 = used_nodes s"
    and tn: "total_nodes s = 40" and mm: "mem s \<noteq> 0"
    by (auto simp: mid_inv_def)
  show ?thesis
  proof (cases "nxt (?h ! k)")
    case None
    with F k have "s' = s" by (simp add: forward_merge_def get_node_def rd_def)
    with M None show ?thesis by simp
  next
    case (Some j)
    note G = succ_facts[OF L A k Some]
    show ?thesis
    proof (cases "allocated (?h ! j) = 0")
      case False
      with F k Some G(1) have "s' = s" by (simp add: forward_merge_def get_node_def rd_def)
      with M Some False show ?thesis by simp
    next
      case True
      from F k Some G(1) True upd_used_noop[OF G(1) G(3)]
      have mn: "merge_next s k j = Some s'" by (simp add: forward_merge_def get_node_def rd_def)
      then obtain st1 s1 where r: "mem_remove_from_gap_ix s j = Some (st1, s1)"
        and un: "unlink_next s1 k j = Some s'"
        by (auto simp: merge_next_def bind_eq_Some_conv)
      note R = remove_fields[OF r]
      from unlink_next_effect[of k s1 j] k G Some R(1)
      have "unlink_next s1 k j = Some (s1\<lparr>node_heap := absorb ?h k j, used_nodes := used_nodes s1 - 1\<rparr>)"
        by simp
      with un have s': "s' = s1\<lparr>node_heap := absorb ?h k j, used_nodes := used_nodes s1 - 1\<rparr>" by simp
      have hp: "node_heap s' = absorb ?h k j" and up: "used_nodes s' = used_nodes s - 1"
        and others: "total_nodes s' = 40" "mem s' \<noteq> 0" "num_allocs s' = num_allocs s" "num_gaps s' = num_gaps s - 1"
        using s' R tn mm by simp_all
      note U = absorb_used_slots[OF L A k Some]
      note P = absorb_fields[OF L A k Some]
      note NA = absorb_noadj_forward[OF L A k Some N True]
      have c': "unat (used_nodes s') = card (used_slots (node_heap s'))"
        using used_nodes_dec[OF len cnt U(2)] hp up U(1) by simp
      have "used_nodes s - 1 = num_allocs s + num_gaps s" by (simp add: ctr[symmetric])
      then have ctr': "num_allocs s' + num_gaps s' + 1 = used_nodes s'"
        using others up by simp
      have "mid_inv s' k 1"
        unfolding mid_inv_def hp
        using len k absorb_length absorb_links_ok[OF L A k Some] absorb_acyclic[OF L A k Some]
          absorb_head_ok[OF L A H k Some] NA(1) P(1) fk c' ctr' others hp
        by simp
      with NA(2) hp show ?thesis by simp
    qed
  qed
qed

lemma noadj_from_except:
  assumes L: "links_ok h" and N: "noadj_except h k"
    and S: "\<forall>n. nxt (h ! k) = Some n \<longrightarrow> allocated (h ! n) \<noteq> 0"
    and P: "\<forall>p. prv (h ! k) = Some p \<longrightarrow> allocated (h ! p) \<noteq> 0"
  shows "noadj h"
  unfolding noadj_def
proof (intro allI impI)
  fix i j assume i: "i < length h" and c: "allocated (h ! i) = 0 \<and> nxt (h ! i) = Some j"
  show "allocated (h ! j) \<noteq> 0"
  proof (cases "i = k")
    case True
    with c S show ?thesis by blast
  next
    case ik: False
    show ?thesis
    proof (cases "j = k")
      case True
      from links_okD(3)[OF L i] c True have "prv (h ! k) = Some i" by blast
      with P c show ?thesis by blast
    next
      case False
      with N i ik c show ?thesis unfolding noadj_except_def by blast
    qed
  qed
qed

lemma backward_merge_inv:
  assumes M: "mid_inv s k 0"
    and S: "\<forall>n. nxt (node_heap s ! k) = Some n \<longrightarrow> allocated (node_heap s ! n) \<noteq> 0"
    and B: "backward_merge s k = Some (st, s')"
  shows "pool_inv s'"
proof -
  let ?h = "node_heap s"
  from M have len: "length ?h = 40" and k: "k < length ?h" and L: "links_ok ?h" and A: "acyclic_heap ?h"
    and H: "head_ok ?h" and N: "noadj_except ?h k" and fk: "allocated (?h ! k) = 0"
    and cnt: "unat (used_nodes s) = card (used_slots ?h)"
    and ctr: "num_allocs s + num_gaps s = used_nodes s"
    and tn: "total_nodes s = 40" and mm: "mem s \<noteq> 0"
    by (auto simp: mid_inv_def)
  have same: "noadj ?h \<Longrightarrow> pool_inv s"
    using len L A H cnt ctr tn mm by (simp add: pool_inv_def)
  show ?thesis
  proof (cases "prv (?h ! k)")
    case None
    with B k have "s' = s" by (simp add: backward_merge_def get_node_def rd_def)
    moreover have "noadj ?h" using noadj_from_except[OF L N S] None by simp
    ultimately show ?thesis using same by simp
  next
    case (Some p)
    from links_okD(4)[OF L k Some] have p: "p < length ?h" and up: "used (?h ! p) = 1"
      and pk: "nxt (?h ! p) = Some k" by auto
    note G = succ_facts[OF L A p pk]
    show ?thesis
    proof (cases "allocated (?h ! p) = 0")
      case False
      with B k Some p have "s' = s" by (simp add: backward_merge_def get_node_def rd_def)
      moreover have "noadj ?h" using noadj_from_except[OF L N S] Some False by simp
      ultimately show ?thesis using same by simp
    next
      case True
      from B k Some p True upd_used_noop[OF p up]
      have mp: "merge_prev s k p = Some (st, s')" by (simp add: backward_merge_def get_node_def rd_def)
      from merge_prevD[OF mp] obtain s1 s2 s11 st3 and pr11 :: node
        where r1: "mem_remove_from_gap_ix s p = Some (ALLOC_OK, s1)"
        and r2: "mem_remove_from_gap_ix s1 k = Some (ALLOC_OK, s2)"
        and un: "unlink_prev s2 k p = Some s11"
        and ad: "mem_add_to_gap_ix s11 (rec_size pr11) p = Some (st3, s')"
        by blast
      note R1 = remove_fields[OF r1]
      note R2 = remove_fields[OF r2]
      note AD = add_fields[OF ad]
      have h2: "node_heap s2 = ?h" using R1 R2 by simp
      from unlink_prev_effect[of k s2 p] k p Some G h2
      have "unlink_prev s2 k p = Some (s2\<lparr>node_heap := absorb ?h p k, used_nodes := used_nodes s2 - 1\<rparr>)"
        by simp
      with un have s11: "s11 = s2\<lparr>node_heap := absorb ?h p k, used_nodes := used_nodes s2 - 1\<rparr>" by simp
      have hp: "node_heap s' = absorb ?h p k" and upn: "used_nodes s' = used_nodes s - 1"
        and others: "total_nodes s' = 40" "mem s' \<noteq> 0" "num_allocs s' = num_allocs s"
          "num_gaps s' = num_gaps s - 1 - 1 + 1"
        using s11 R1 R2 AD tn mm by simp_all
      note U = absorb_used_slots[OF L A p pk]
      have c': "unat (used_nodes s') = card (used_slots (node_heap s'))"
        using used_nodes_dec[OF len cnt U(2)] hp upn U(1) by simp
      have ctr': "num_allocs s' + num_gaps s' = used_nodes s'"
        using others upn by (simp add: ctr[symmetric])
      show ?thesis
        unfolding pool_inv_def hp
        using len absorb_length absorb_links_ok[OF L A p pk] absorb_acyclic[OF L A p pk]
          absorb_head_ok[OF L A H p pk] absorb_noadj_backward[OF L A p pk N S] c' ctr' others hp
        by simp
    qed
  qed
qed

lemma noadj_to_except:
  assumes "noadj h" shows "noadj_except (h[k := x]) k"
  using assms unfolding noadj_def noadj_except_def by auto

lemma noadj_alloc:
  assumes N: "noadj h" and k: "k < length h" and a: "allocated x \<noteq> 0" and n: "nxt x = nxt (h ! k)"
  shows "noadj (h[k := x])"
  unfolding noadj_def length_list_update
proof (intro allI impI)
  fix i j assume i: "i < length h" and c: "allocated (h[k := x] ! i) = 0 \<and> nxt (h[k := x] ! i) = Some j"
  from c a i k have ik: "i \<noteq> k" by (auto simp: nth_list_update)
  with c i have c': "allocated (h ! i) = 0 \<and> nxt (h ! i) = Some j" by (simp add: nth_list_update)
  with N i have "allocated (h ! j) \<noteq> 0" unfolding noadj_def by blast
  with a k show "allocated (h[k := x] ! j) \<noteq> 0" by (cases "j = k") (simp_all add: nth_list_update)
qed

lemma del_alloc_inv:
  assumes I: "pool_inv s" and D: "mem_del_alloc junk s a = Some (st, s')"
  shows "pool_inv s' \<and> (st = ALLOC_OK \<or> st = ALLOC_NOT_FREED \<and> s' = s)"
proof -
  let ?h = "node_heap s"
  from I have len: "length ?h = 40" and L: "links_ok ?h" and A: "acyclic_heap ?h"
    and H: "head_ok ?h" and N: "noadj ?h"
    and cnt: "unat (used_nodes s) = card (used_slots ?h)"
    and ctr: "num_allocs s + num_gaps s = used_nodes s"
    and tn: "total_nodes s = 40" and mm: "mem s \<noteq> 0"
    by (auto simp: pool_inv_def)
  from len tn have "unat (total_nodes s) \<le> length ?h" by simp
  from first_slot_total[OF this] obtain found
    where f: "first_slot ?h (\<lambda>x. a = rec_mem x) 0 (unat (total_nodes s)) = Some found" by blast
  show ?thesis
  proof (cases "case found of Some i \<Rightarrow> Some i | None \<Rightarrow> junk")
    case None
    with D f have "st = ALLOC_NOT_FREED" "s' = s" by (simp_all add: mem_del_alloc_def)
    with I show ?thesis by simp
  next
    case (Some k)
    have k: "k < length ?h"
    proof (cases found)
      case None
      with D f Some show ?thesis
        by (auto simp: mem_del_alloc_def bind_eq_Some_conv upd_node_def wr_def split: if_splits)
    next
      case (Some k')
      with \<open>(case found of Some i \<Rightarrow> Some i | None \<Rightarrow> junk) = Some k\<close> have "found = Some k" by simp
      from first_slot_SomeD[OF f[unfolded this]] show ?thesis by simp
    qed
    define s3 where "s3 = s\<lparr>node_heap := ?h[k := (?h ! k)\<lparr>allocated := 0\<rparr>],
        num_allocs := num_allocs s - 1,
        alloc_size := alloc_size s - rec_size (?h ! k)\<rparr>"
    from D f Some k obtain s5 st6 s6 st8 s8 where fm: "forward_merge s3 k = Some s5"
      and ad: "mem_add_to_gap_ix s5 (rec_size (node_heap s5 ! k)) k = Some (st6, s6)"
      and bm: "backward_merge s6 k = Some (st8, s8)" and res0: "s' = s8" "st = ALLOC_OK \<or> st8 = ALLOC_FAIL"
      by (auto simp: mem_del_alloc_def bind_eq_Some_conv upd_node_def wr_def get_node_def rd_def s3_def
          split: if_splits)
    from res0 backward_merge_status[OF bm] have res: "st = ALLOC_OK" "s' = s8" by auto
    note FU = flag_update[of k ?h "(?h ! k)\<lparr>allocated := 0\<rparr>", OF k]
    have m3: "mid_inv s3 k 1"
      unfolding mid_inv_def
      using len k FU(1)[OF _ _ _ _ L] FU(2)[OF _ _ _ _ A] FU(3)[OF _ _ _ _ H] FU(4) noadj_to_except[OF N]
        cnt ctr tn mm links_okD(2)[OF L k]
      by (simp add: s3_def)
    from forward_merge_mid[OF m3 fm] have m5: "mid_inv s5 k 1"
      and S5: "\<forall>n. nxt (node_heap s5 ! k) = Some n \<longrightarrow> allocated (node_heap s5 ! n) \<noteq> 0" by auto
    note AD = add_fields[OF ad]
    have m6: "mid_inv s6 k 0" using m5 AD by (simp add: mid_inv_def add.assoc)
    have S6: "\<forall>n. nxt (node_heap s6 ! k) = Some n \<longrightarrow> allocated (node_heap s6 ! n) \<noteq> 0"
      using S5 AD(1) by simp
    from backward_merge_inv[OF m6 S6 bm] res show ?thesis by simp
  qed
qed

lemma first_gap_SomeD:
  "first_gap h g sz i n = Some (Some k) \<Longrightarrow> k < length h \<and> fits sz (h ! k)"
proof (induction h g sz i n rule: first_gap.induct)
  case (1 h g sz i n)
  from "1.prems" have lt: "i < n" by (auto simp: first_gap.simps[of h g sz i n] split: if_splits)
  from "1.prems" lt obtain e where e: "rd g i = Some e"
    by (auto simp: first_gap.simps[of h g sz i n] split: option.splits)
  from "1.prems" lt e obtain x where x: "deref h (gap_node e) = Some x"
    by (auto simp: first_gap.simps[of h g sz i n] split: option.splits)
  show ?case
  proof (cases "allocated x = 0 \<and> sz \<le> rec_size x")
    case True
    with "1.prems" lt e x have "gap_node e = Some k" by (simp add: first_gap.simps[of h g sz i n])
    with x True show ?thesis by (auto simp: deref_def rd_def fits_def split: if_splits)
  next
    case False
    with "1.prems" lt e x have "first_gap h g sz (Suc i) n = Some (Some k)"
      by (simp add: first_gap.simps[of h g sz i n])
    from "1.IH"[OF lt e x _ this] False show ?thesis by simp
  qed
qed

lemma select_nodeD:
  assumes "select_node s sz = Some (Some i)"
  shows "i < length (node_heap s) \<and> fits sz (node_heap s ! i)"
proof (cases "policy s")
  case FIRST_FIT
  with assms have "first_slot (node_heap s) (fits sz) 0 (unat (total_nodes s)) = Some (Some i)"
    by (simp add: select_node_def)
  from first_slot_SomeD[OF this] show ?thesis by simp
next
  case BEST_FIT
  with assms have "first_gap (node_heap s) (gap_ix s) sz 0 (unat (num_gaps s)) = Some (Some i)"
    by (simp add: select_node_def)
  from first_gap_SomeD[OF this] show ?thesis .
qed

lemma all_used_card:
  assumes len: "length h = 40" and L: "links_ok h"
    and all: "\<forall>m<40. used (h ! m) \<noteq> 0"
  shows "card (used_slots h) = 40"
proof -
  have "used_slots h = {..<40}"
    using len all links_okD(1)[OF L] by (auto simp: used_slots_def)
  then show ?thesis by simp
qed

lemma new_alloc_inv:
  assumes I: "pool_inv s" and D: "mem_new_alloc junk s sz = Some (r, s')"
  shows "pool_inv s' \<and> (r = None \<longrightarrow> s' = s)"
proof -
  let ?h = "node_heap s"
  from I have len: "length ?h = 40" and L: "links_ok ?h" and A: "acyclic_heap ?h"
    and H: "head_ok ?h" and N: "noadj ?h"
    and cnt: "unat (used_nodes s) = card (used_slots ?h)"
    and ctr: "num_allocs s + num_gaps s = used_nodes s"
    and tn: "total_nodes s = 40" and mm: "mem s \<noteq> 0"
    by (auto simp: pool_inv_def)
  show ?thesis
  proof (cases "num_gaps s = 0 \<or> total_nodes s \<le> used_nodes s \<or> select_node s sz = Some None")
    case True
    with D have "r = None" "s' = s" by (auto simp: mem_new_alloc_def split: if_splits)
    with I show ?thesis by simp
  next
    case False
    with D obtain i where sel: "select_node s sz = Some (Some i)"
      by (auto simp: mem_new_alloc_def split: if_splits option.splits)
    from select_nodeD[OF sel] have i: "i < length ?h" and fi: "fits sz (?h ! i)" by auto
    from fi have ai: "allocated (?h ! i) = 0" and le: "sz \<le> rec_size (?h ! i)" by (auto simp: fits_def)
    let ?x = "(?h ! i)\<lparr>allocated := 1, rec_size := sz\<rparr>"
    let ?h5 = "?h[i := ?x]"
    from False have guard: "num_gaps s \<noteq> 0" "\<not> total_nodes s \<le> used_nodes s" by auto
    from D sel guard i obtain st3 s3 where rm: "mem_remove_from_gap_ix (s\<lparr>num_allocs := num_allocs s + 1,
          alloc_size := alloc_size s + sz\<rparr>) i = Some (st3, s3)"
      by (auto simp: mem_new_alloc_def bind_eq_Some_conv get_node_def rd_def)
    note R = remove_fields[OF rm]
    define s5 where "s5 = s3\<lparr>node_heap := ?h5\<rparr>"
    have f5: "node_heap s5 = ?h5" "total_nodes s5 = 40" "mem s5 \<noteq> 0" "used_nodes s5 = used_nodes s"
      "num_allocs s5 = num_allocs s + 1" "num_gaps s5 = num_gaps s - 1"
      using R tn mm by (simp_all add: s5_def)
    have sz0: "used (?h ! i) = 0 \<longrightarrow> rec_size ?x = 0"
      using links_okD(2)[OF L i] le by auto
    note FU = flag_update[of i ?h ?x, OF i _ _ _ sz0]
    have L5: "links_ok ?h5" and A5: "acyclic_heap ?h5" and H5: "head_ok ?h5"
      and U5: "used_slots ?h5 = used_slots ?h"
      using FU(1)[OF _ _ _ L] FU(2)[OF _ _ _ A] FU(3)[OF _ _ _ H] FU(4) by simp_all
    have N5: "noadj ?h5" using noadj_alloc[OF N i, of ?x] by simp
    have len5: "length ?h5 = 40" using len by simp
    have ctr5: "num_allocs s5 + num_gaps s5 = used_nodes s5" using f5 ctr[symmetric] by simp
    have inv5: "pool_inv s5"
      unfolding pool_inv_def using f5 len5 L5 A5 H5 N5 U5 cnt ctr5 by simp
    from D sel guard i rm
    have D5: "(if rec_size (?h ! i) - sz \<noteq> 0 then do {
               found \<leftarrow> first_slot (node_heap s5) (\<lambda>x. used x = 0) 0 (unat (total_nodes s5));
               (case (case found of Some i \<Rightarrow> Some i | None \<Rightarrow> junk) of
                  None \<Rightarrow> Some (None, s5)
                | Some unused_node \<Rightarrow> do {
                    s6 \<leftarrow> split_node s5 i unused_node sz (rec_size (?h ! i) - sz);
                    Some (Some i, s6)
                  })
             } else Some (Some i, s5)) = Some (r, s')"
      unfolding s5_def using R(1)
      by (simp add: mem_new_alloc_def get_node_def rd_def upd_node_def wr_def)
    show ?thesis
    proof (cases "rec_size (?h ! i) - sz = 0")
      case True
      with D5 have "r = Some i" "s' = s5" by simp_all
      with inv5 show ?thesis by simp
    next
      case rem: False
      have ui: "used (?h ! i) = 1"
      proof (rule ccontr)
        assume "used (?h ! i) \<noteq> 1"
        with links_okD(1)[OF L i] have "used (?h ! i) = 0" by auto
        with links_okD(2)[OF L i] have "rec_size (?h ! i) = 0" by simp
        with le have "sz = 0" by simp
        with \<open>rec_size (?h ! i) = 0\<close> rem show False by simp
      qed
      have ui5: "used (?h5 ! i) = 1" using ui i by simp
      have i5: "i < length ?h5" using i by simp
      from len5 f5 have "unat (total_nodes s5) \<le> length (node_heap s5)" by simp
      from first_slot_total[OF this] obtain found
        where f: "first_slot (node_heap s5) (\<lambda>x. used x = 0) 0 (unat (total_nodes s5)) = Some found" by blast
      have "found \<noteq> None"
      proof
        assume "found = None"
        with first_slot_NoneD[OF f[unfolded this]] f5 have "\<forall>m<40. used (?h5 ! m) \<noteq> 0" by simp
        from all_used_card[OF len5 L5 this] U5 cnt have "unat (used_nodes s) = 40" by simp
        with guard(2) tn show False by (simp add: word_le_nat_alt)
      qed
      then obtain u where fu: "found = Some u" by auto
      from first_slot_SomeD[OF f[unfolded fu]] f5 have u: "u < length ?h5" and uu: "used (?h5 ! u) = 0" by auto
      from D5 rem f fu obtain s6 where sp: "split_node s5 i u sz (rec_size (?h ! i) - sz) = Some s6"
        and res: "r = Some i" "s' = s6" by (auto simp: bind_eq_Some_conv)
      from sp obtain s9 st10 where la: "link_after s5 i u sz (rec_size (?h ! i) - sz) = Some s9"
        and ad: "mem_add_to_gap_ix s9 (rec_size (?h ! i) - sz) u = Some (st10, s6)"
        by (auto simp: split_node_def bind_eq_Some_conv split: if_splits)
      note G = unused_facts[OF L5 A5 i5 u ui5 uu]
      from link_after_effect[of i s5 u sz "rec_size (?h ! i) - sz"] i5 u G f5(1)
      have "link_after s5 i u sz (rec_size (?h ! i) - sz)
            = Some (s5\<lparr>node_heap := insert_after ?h5 i u sz (rec_size (?h ! i) - sz), used_nodes := used_nodes s5 + 1\<rparr>)"
        by simp
      with la have s9: "s9 = s5\<lparr>node_heap := insert_after ?h5 i u sz (rec_size (?h ! i) - sz), used_nodes := used_nodes s5 + 1\<rparr>"
        by simp
      note AD = add_fields[OF ad]
      let ?h' = "insert_after ?h5 i u sz (rec_size (?h ! i) - sz)"
      have f': "node_heap s' = ?h'" "total_nodes s' = 40" "mem s' \<noteq> 0" "used_nodes s' = used_nodes s + 1"
        "num_allocs s' = num_allocs s + 1" "num_gaps s' = num_gaps s - 1 + 1"
        using res s9 AD f5 by simp_all
      have S: "\<forall>n. nxt (?h5 ! i) = Some n \<longrightarrow> allocated (?h5 ! n) \<noteq> 0"
      proof (intro allI impI)
        fix n assume "nxt (?h5 ! i) = Some n"
        with i have hn: "nxt (?h ! i) = Some n" by simp
        from N i ai hn have "allocated (?h ! n) \<noteq> 0" unfolding noadj_def by blast
        moreover from acyclic_neq[OF A i hn] have "n \<noteq> i" .
        ultimately show "allocated (?h5 ! n) \<noteq> 0" by simp
      qed
      have a5: "allocated (?h5 ! i) \<noteq> 0" using i by simp
      note US = insert_after_used_slots[OF L5 A5 i5 u ui5 uu]
      have c': "unat (used_nodes s') = card (used_slots (node_heap s'))"
        using used_nodes_inc[OF len5 _ US(2), of "used_nodes s"] cnt U5 US(1) f' by simp
      have ctr': "num_allocs s' + num_gaps s' = used_nodes s'" using f' ctr[symmetric] by simp
      have "pool_inv s'"
        unfolding pool_inv_def f'(1)
        using len5 insert_after_length insert_after_links_ok[OF L5 A5 i5 u ui5 uu]
          insert_after_acyclic[OF L5 A5 i5 u ui5 uu] insert_after_head_ok[OF L5 A5 H5 i5 u ui5 uu]
          insert_after_noadj[OF L5 A5 i5 u ui5 uu N5 a5 S] c' ctr' f'
        by simp
      with res show ?thesis by simp
    qed
  qed
qed

lemma init_nth:
  "i < 40 \<Longrightarrow> node_heap (init_mgr buf sz pol) ! i = (if i = 0 then init_node buf sz else zero_node)"
  by (simp add: init_mgr_def MEM_NODE_HEAP_INIT_CAPACITY_def nth_list_update)

lemma init_inv:
  assumes "buf \<noteq> 0"
  shows "pool_inv (init_mgr buf sz pol)"
proof -
  let ?h = "node_heap (init_mgr buf sz pol)"
  have len: "length ?h = 40" by (simp add: init_mgr_def MEM_NODE_HEAP_INIT_CAPACITY_def)
  have nl: "\<And>i. i < 40 \<Longrightarrow> nxt (?h ! i) = None \<and> prv (?h ! i) = None
      \<and> (used (?h ! i) = 0 \<or> used (?h ! i) = 1) \<and> (used (?h ! i) = 0 \<longrightarrow> rec_size (?h ! i) = 0)
      \<and> (used (?h ! i) = 1 \<longleftrightarrow> i = 0)"
    by (simp add: init_nth init_node_def zero_node_def)
  have L: "links_ok ?h" unfolding links_ok_def len using nl by auto
  have A: "acyclic_heap ?h" unfolding acyclic_heap_def len using nl by simp
  have H: "head_ok ?h" unfolding head_ok_def len using nl[of 0] by simp
  have N: "noadj ?h" unfolding noadj_def len using nl by simp
  have "used_slots ?h = {0}" unfolding used_slots_def len using nl by auto
  then have c: "card (used_slots ?h) = 1" by simp
  have f: "total_nodes (init_mgr buf sz pol) = 40" "mem (init_mgr buf sz pol) = buf"
    "used_nodes (init_mgr buf sz pol) = 1" "num_allocs (init_mgr buf sz pol) = 0"
    "num_gaps (init_mgr buf sz pol) = 1"
    by (simp_all add: init_mgr_def MEM_NODE_HEAP_INIT_CAPACITY_def)
  show ?thesis unfolding pool_inv_def using len L A H N c f assms by simp
qed

lemma reachable_inv: "reachable s \<Longrightarrow> pool_inv s"
proof (induction rule: reachable.induct)
  case (opened buf sz pol)
  then show ?case by (rule init_inv)
next
  case (allocated s sz r s')
  from new_alloc_inv[OF allocated.IH allocated.hyps(2)] show ?case by simp
next
  case (freed s a st s')
  from del_alloc_inv[OF freed.IH freed.hyps(2)] show ?case by simp
qed


subsection \<open>Adjacent free blocks\<close>




subsection \<open>Closing a pool\<close>

lemma clear_slot_total:
  "n \<le> length ps \<Longrightarrow> \<exists>r. clear_slot ps p i n = Some r"
proof (induction ps p i n rule: clear_slot.induct)
  case (1 ps p i n)
  show ?case
  proof (cases "i < n")
    case False
    then show ?thesis by (simp add: clear_slot.simps[of ps p i n])
  next
    case True
    with "1.prems" have il: "i < length ps" by simp
    show ?thesis
    proof (cases "ps ! i = Some p")
      case True
      with \<open>i < n\<close> il show ?thesis by (simp add: clear_slot.simps[of ps p i n] rd_def)
    next
      case False
      from "1.IH"[of "ps ! i"] True il False "1.prems" obtain r where "clear_slot ps p (Suc i) n = Some r"
        by (auto simp: rd_def)
      with True il False show ?thesis by (simp add: clear_slot.simps[of ps p i n] rd_def)
    qed
  qed
qed

lemma inv_close_condition:
  assumes I: "pool_inv s"
  shows "(mem s = 0 \<or> 1 < num_gaps s \<or> 0 < num_allocs s) \<longleftrightarrow> \<not> (num_allocs s = 0 \<and> num_gaps s = 1)"
proof -
  from I have len: "length (node_heap s) = 40" and H: "head_ok (node_heap s)"
    and cnt: "unat (used_nodes s) = card (used_slots (node_heap s))"
    and ctr: "num_allocs s + num_gaps s = used_nodes s" and mm: "mem s \<noteq> 0"
    by (auto simp: pool_inv_def)
  from H len have "0 \<in> used_slots (node_heap s)" by (simp add: used_slots_def head_ok_def)
  with used_slots_bound[OF len] have "0 < card (used_slots (node_heap s))" by (auto simp: card_gt_0_iff)
  with cnt have u0: "used_nodes s \<noteq> 0" by (auto simp: unat_eq_0)
  show ?thesis
  proof
    assume "mem s = 0 \<or> 1 < num_gaps s \<or> 0 < num_allocs s"
    with mm show "\<not> (num_allocs s = 0 \<and> num_gaps s = 1)" by auto
  next
    assume n: "\<not> (num_allocs s = 0 \<and> num_gaps s = 1)"
    show "mem s = 0 \<or> 1 < num_gaps s \<or> 0 < num_allocs s"
    proof (cases "num_allocs s = 0")
      case False
      then show ?thesis by (simp add: word_neq_0_conv)
    next
      case True
      with ctr u0 have g0: "num_gaps s \<noteq> 0" by simp
      from n True have g1: "num_gaps s \<noteq> 1" by simp
      from g0 g1 have "unat (num_gaps s) \<noteq> 0" "unat (num_gaps s) \<noteq> 1"
        by (auto simp: word_unat_eq_iff)
      then have "1 < num_gaps s" by (simp add: word_less_nat_alt)
      then show ?thesis by simp
    qed
  qed
qed

text \<open>
  C5: for an open pool and an allocated pool store that holds its capacity,
  \<open>mem_pool_close\<close> returns \<open>ALLOC_OK\<close> and releases the manager exactly when
  \<open>num_allocs\<close> is 0 and \<open>num_gaps\<close> is 1; in every other state it returns
  \<open>ALLOC_NOT_FREED\<close> and leaves the store and the manager as they were. (The test in
  the code lets \<open>num_gaps = 0\<close> through, but no state of an open pool has
  \<open>num_allocs = 0\<close> and \<open>num_gaps = 0\<close>.)
\<close>

theorem close_ok_iff:
  assumes "reachable s" and "store_ok st"
  shows "(num_allocs s = 0 \<and> num_gaps s = 1 \<longrightarrow>
            (\<exists>st'. mem_pool_close st p s = Some (ALLOC_OK, st', None))) \<and>
         (\<not> (num_allocs s = 0 \<and> num_gaps s = 1) \<longrightarrow>
            mem_pool_close st p s = Some (ALLOC_NOT_FREED, st, Some s))"
proof -
  note c = inv_close_condition[OF reachable_inv[OF assms(1)]]
  from assms(2) obtain ps where ps: "pool_store st = Some ps"
    and cap: "unat (pool_store_capacity st) \<le> length ps"
    by (auto simp: store_ok_def split: option.splits)
  from clear_slot_total[OF cap] obtain r where r: "clear_slot ps p 0 (unat (pool_store_capacity st)) = Some r"
    by blast
  show ?thesis
  proof (intro conjI impI)
    assume "num_allocs s = 0 \<and> num_gaps s = 1"
    with c have "\<not> (mem s = 0 \<or> 1 < num_gaps s \<or> 0 < num_allocs s)" by blast
    with ps r show "\<exists>st'. mem_pool_close st p s = Some (ALLOC_OK, st', None)"
      by (simp add: mem_pool_close_def)
  next
    assume "\<not> (num_allocs s = 0 \<and> num_gaps s = 1)"
    with c have "mem s = 0 \<or> 1 < num_gaps s \<or> 0 < num_allocs s" by blast
    then show "mem_pool_close st p s = Some (ALLOC_NOT_FREED, st, Some s)"
      by (simp add: mem_pool_close_def)
  qed
qed

theorem close_ok_iff_witness:
  "(\<exists>st'. mem_pool_close (snd (mem_init \<lparr>pool_store = None, pool_store_size = 0, pool_store_capacity = 0\<rparr>))
             7 (init_mgr 1000 100 BEST_FIT) = Some (ALLOC_OK, st', None)) \<and>
   (\<exists>s. reachable s \<and> num_allocs s = 1 \<and>
        mem_pool_close (snd (mem_init \<lparr>pool_store = None, pool_store_size = 0, pool_store_capacity = 0\<rparr>)) 7 s
          = Some (ALLOC_NOT_FREED,
                  snd (mem_init \<lparr>pool_store = None, pool_store_size = 0, pool_store_capacity = 0\<rparr>), Some s))"
proof -
  let ?st = "snd (mem_init \<lparr>pool_store = None, pool_store_size = 0, pool_store_capacity = 0\<rparr>)"
  have so: "store_ok ?st" by (simp add: store_ok_def mem_init_def MEM_POOL_STORE_INIT_CAPACITY_def)
  have b: "(1000 :: addr) \<noteq> 0" by simp
  have r0: "reachable (init_mgr 1000 100 BEST_FIT)" by (rule reachable.opened[OF b])
  have f0: "num_allocs (init_mgr 1000 100 BEST_FIT) = 0 \<and> num_gaps (init_mgr 1000 100 BEST_FIT) = 1"
    by (simp add: init_mgr_def)
  have lt: "(30 :: size_t) < 100" by simp
  note a = init_alloc_split[OF lt, of None 1000 BEST_FIT]
  note r1 = reachable.allocated[OF r0 a]
  from close_ok_iff[OF r0 so, of 7] f0 close_ok_iff[OF r1 so, of 7] r1
  show ?thesis by auto
qed

subsection \<open>Failing calls\<close>

text \<open>
  C6: on an open pool, an allocation that returns \<open>NULL\<close> and a release that returns
  anything but \<open>ALLOC_OK\<close> leave the whole manager (node heap with its links, gap
  index, totals) as it was before the call, whatever the unset locals hold. The two
  returns that come after the first write are never taken: the allocation finds an
  unused slot whenever \<open>used_nodes < total_nodes\<close>, and the backward merge never sees
  \<open>ALLOC_FAIL\<close> from a removal (\<open>del_alloc_status\<close>).
\<close>

theorem failed_call_leaves_pool:
  assumes "reachable s"
  shows "(mem_new_alloc junk s sz = Some (None, s') \<longrightarrow> s' = s) \<and>
         (mem_del_alloc junk' s a = Some (st, s'') \<and> st \<noteq> ALLOC_OK \<longrightarrow> s'' = s)"
proof (intro conjI impI)
  note I = reachable_inv[OF assms]
  assume "mem_new_alloc junk s sz = Some (None, s')"
  from new_alloc_inv[OF I this] show "s' = s" by simp
next
  note I = reachable_inv[OF assms]
  assume "mem_del_alloc junk' s a = Some (st, s'') \<and> st \<noteq> ALLOC_OK"
  with del_alloc_inv[OF I, of junk' a st s''] show "s'' = s" by auto
qed

theorem failed_call_leaves_pool_witness:
  "mem_new_alloc None (init_mgr 1000 100 FIRST_FIT) 200 = Some (None, init_mgr 1000 100 FIRST_FIT) \<and>
   mem_del_alloc None (init_mgr 1000 100 FIRST_FIT) 2000
     = Some (ALLOC_NOT_FREED, init_mgr 1000 100 FIRST_FIT)"
proof -
  have b: "(1000 :: addr) \<noteq> 0" by simp
  have r0: "reachable (init_mgr 1000 100 FIRST_FIT)" by (rule reachable.opened[OF b])
  have 1: "mem_new_alloc None (init_mgr 1000 100 FIRST_FIT) 200
             = Some (None, snd (the (mem_new_alloc None (init_mgr 1000 100 FIRST_FIT) 200)))"
    by code_simp
  have 2: "mem_del_alloc None (init_mgr 1000 100 FIRST_FIT) 2000
             = Some (ALLOC_NOT_FREED, snd (the (mem_del_alloc None (init_mgr 1000 100 FIRST_FIT) 2000)))"
    by code_simp
  from failed_call_leaves_pool[OF r0, of None 200 "snd (the (mem_new_alloc None (init_mgr 1000 100 FIRST_FIT) 200))"
      None 2000 ALLOC_NOT_FREED "snd (the (mem_del_alloc None (init_mgr 1000 100 FIRST_FIT) 2000))"] 1 2
  show ?thesis by simp
qed

subsection \<open>Conservation of bytes\<close>

text \<open>
  C2, as stated, fails: in a pool of 6 bytes the client allocates A (1 byte) and two
  blocks of 0 bytes, Z1 and Z2, which both get address 1001; it frees A, frees Z2,
  allocates 2 bytes and frees Z1. Freeing Z2 finds the slot of Z1 first (same
  address), so slot 1 is retired and then reused for the 3-byte remainder at 1003;
  freeing Z1 reads that address and subtracts 3 from \<open>alloc_size\<close>, which was 2. The
  free bytes plus \<open>alloc_size\<close> are then 3 and not 6.
\<close>

theorem byte_conservation_fails:
  "(case run (init_mgr 1000 6 FIRST_FIT) [Alloc 1, Alloc 0, Alloc 0, Free 0, Free 2, Alloc 2] of
      None \<Rightarrow> False
    | Some s \<Rightarrow>
        total_size s = 6 \<and> free_bytes s + alloc_size s = 6 \<and> alloc_size s = 2 \<and>
        allocated (node_heap s ! 2) = 1 \<and> used (node_heap s ! 2) = 1 \<and>
        free_block (node_heap s ! 1) \<and> rec_mem (node_heap s ! 1) = 1003 \<and>
        (case call_step s (Free 1) of
           None \<Rightarrow> False
         | Some s' \<Rightarrow>
             total_size s' = 6 \<and> alloc_size s' = 2 - 3 \<and> free_bytes s' = 4 \<and>
             free_bytes s' + alloc_size s' \<noteq> total_size s'))"
  by code_simp

lemma free_bytes_weight: "free_bytes s = sum_list (map weight (node_heap s))"
proof -
  have "sum_list (map rec_size (filter free_block h)) = sum_list (map weight h)" for h :: "node list"
    by (induction h) (simp_all add: weight_def)
  then show ?thesis by (simp add: free_bytes_def)
qed

lemma weight_sum_update:
  "i < length xs \<Longrightarrow> sum_list (map weight (xs[i := x])) = sum_list (map weight xs) - weight (xs ! i) + weight x"
proof (induction xs arbitrary: i)
  case Nil
  then show ?case by simp
next
  case (Cons y ys)
  show ?case
  proof (cases i)
    case 0
    then show ?thesis by simp
  next
    case (Suc j)
    with Cons.prems have "j < length ys" by simp
    from Cons.IH[OF this] Suc show ?thesis by simp
  qed
qed

lemma absorb_weight:
  assumes L: "links_ok h" and A: "acyclic_heap h" and a: "a < length h" and ab: "nxt (h ! a) = Some b"
    and fa: "allocated (h ! a) = 0" and fb: "allocated (h ! b) = 0"
  shows "sum_list (map weight (absorb h a b)) = sum_list (map weight h)"
proof -
  note F = succ_facts[OF L A a ab]
  have wa: "weight (h ! a) = rec_size (h ! a)" and wb: "weight (h ! b) = rec_size (h ! b)"
    using F fa fb by (simp_all add: weight_def free_block_def)
  have wr: "weight (retire (h ! b)) = 0" by (simp add: weight_def free_block_def retire_def)
  have wA: "weight ((h ! a)\<lparr>rec_size := rec_size (h ! a) + rec_size (h ! b), nxt := z\<rparr>)
              = rec_size (h ! a) + rec_size (h ! b)" for z
    using F fa by (simp add: weight_def free_block_def)
  have wN: "weight (x\<lparr>prv := z\<rparr>) = weight x" for x :: node and z
    by (simp add: weight_def free_block_def)
  show ?thesis
  proof (cases "nxt (h ! b)")
    case None
    with a F wa wb wr wA show ?thesis
      by (simp add: absorb_def weight_sum_update nth_list_update)
  next
    case (Some n)
    with F have n: "n < length h" "n \<noteq> b" "n \<noteq> a" by auto
    with Some a F wa wb wr wA wN show ?thesis
      by (simp add: absorb_def weight_sum_update nth_list_update)
  qed
qed

lemma insert_after_weight:
  assumes L: "links_ok h" and A: "acyclic_heap h" and i: "i < length h" and u: "u < length h"
    and ui: "used (h ! i) = 1" and uu: "used (h ! u) = 0"
  shows "sum_list (map weight (insert_after h i u sz rem)) = sum_list (map weight h) + rem"
proof -
  note F = unused_facts[OF L A i u ui uu]
  have wu: "weight (h ! u) = 0" using uu by (simp add: weight_def free_block_def)
  have wg: "weight \<lparr>rec_mem = m, rec_size = rem, used = 1, allocated = 0, nxt = z, prv = Some i\<rparr> = rem" for m z
    by (simp add: weight_def free_block_def)
  have wN: "weight (x\<lparr>prv := z\<rparr>) = weight x" for x :: node and z
    by (simp add: weight_def free_block_def)
  have wX: "weight (x\<lparr>nxt := z\<rparr>) = weight x" for x :: node and z
    by (simp add: weight_def free_block_def)
  show ?thesis
  proof (cases "nxt (h ! i)")
    case None
    with i u F wu wg wX show ?thesis
      by (simp add: insert_after_def Let_def weight_sum_update nth_list_update)
  next
    case (Some n)
    with F have n: "n < length h" "n \<noteq> i" "n \<noteq> u" by auto
    with Some i u F wu wg wN wX show ?thesis
      by (simp add: insert_after_def Let_def weight_sum_update nth_list_update)
  qed
qed

lemma remove_gap_fields:
  assumes "mem_remove_from_gap_ix s nd = Some (st, s')"
  shows "node_heap s' = node_heap s" "alloc_size s' = alloc_size s" "total_size s' = total_size s"
  using remove_fields[OF assms] by simp_all

lemma forward_merge_weight:
  assumes M: "mid_inv s k 1" and uk: "used (node_heap s ! k) = 1" and F: "forward_merge s k = Some s'"
  shows "sum_list (map weight (node_heap s')) = sum_list (map weight (node_heap s)) \<and>
         alloc_size s' = alloc_size s \<and> total_size s' = total_size s \<and> used (node_heap s' ! k) = 1"
proof -
  let ?h = "node_heap s"
  from M have k: "k < length ?h" and L: "links_ok ?h" and A: "acyclic_heap ?h"
    and fk: "allocated (?h ! k) = 0"
    by (auto simp: mid_inv_def)
  show ?thesis
  proof (cases "nxt (?h ! k)")
    case None
    with F k have "s' = s" by (simp add: forward_merge_def get_node_def rd_def)
    with uk show ?thesis by simp
  next
    case (Some j)
    note G = succ_facts[OF L A k Some]
    show ?thesis
    proof (cases "allocated (?h ! j) = 0")
      case False
      with F k Some G(1) have "s' = s" by (simp add: forward_merge_def get_node_def rd_def)
      with uk show ?thesis by simp
    next
      case True
      from F k Some G(1) True upd_used_noop[OF G(1) G(3)]
      have mn: "merge_next s k j = Some s'" by (simp add: forward_merge_def get_node_def rd_def)
      then obtain st1 s1 where r: "mem_remove_from_gap_ix s j = Some (st1, s1)"
        and un: "unlink_next s1 k j = Some s'"
        by (auto simp: merge_next_def bind_eq_Some_conv)
      note R = remove_gap_fields[OF r]
      from unlink_next_effect[of k s1 j] k G Some R(1)
      have "unlink_next s1 k j = Some (s1\<lparr>node_heap := absorb ?h k j, used_nodes := used_nodes s1 - 1\<rparr>)"
        by simp
      with un have s': "s' = s1\<lparr>node_heap := absorb ?h k j, used_nodes := used_nodes s1 - 1\<rparr>" by simp
      have "used (absorb ?h k j ! k) = 1"
        using absorb_nth[OF k G(1) G(2) G(6) k] G uk by auto
      with s' R absorb_weight[OF L A k Some fk True] show ?thesis by simp
    qed
  qed
qed

lemma backward_merge_weight:
  assumes M: "mid_inv s k 0" and uk: "used (node_heap s ! k) = 1"
    and B: "backward_merge s k = Some (st, s')"
  shows "sum_list (map weight (node_heap s')) = sum_list (map weight (node_heap s)) \<and>
         alloc_size s' = alloc_size s \<and> total_size s' = total_size s"
proof -
  let ?h = "node_heap s"
  from M have k: "k < length ?h" and L: "links_ok ?h" and A: "acyclic_heap ?h"
    and fk: "allocated (?h ! k) = 0"
    by (auto simp: mid_inv_def)
  show ?thesis
  proof (cases "prv (?h ! k)")
    case None
    with B k have "s' = s" by (simp add: backward_merge_def get_node_def rd_def)
    then show ?thesis by simp
  next
    case (Some p)
    from links_okD(4)[OF L k Some] have p: "p < length ?h" and up: "used (?h ! p) = 1"
      and pk: "nxt (?h ! p) = Some k" by auto
    note G = succ_facts[OF L A p pk]
    show ?thesis
    proof (cases "allocated (?h ! p) = 0")
      case False
      with B k Some p have "s' = s" by (simp add: backward_merge_def get_node_def rd_def)
      then show ?thesis by simp
    next
      case True
      from B k Some p True upd_used_noop[OF p up]
      have mp: "merge_prev s k p = Some (st, s')" by (simp add: backward_merge_def get_node_def rd_def)
      from merge_prevD[OF mp] obtain s1 s2 s11 st3 and pr11 :: node
        where r1: "mem_remove_from_gap_ix s p = Some (ALLOC_OK, s1)"
        and r2: "mem_remove_from_gap_ix s1 k = Some (ALLOC_OK, s2)"
        and un: "unlink_prev s2 k p = Some s11"
        and ad: "mem_add_to_gap_ix s11 (rec_size pr11) p = Some (st3, s')"
        by blast
      note R1 = remove_gap_fields[OF r1]
      note R2 = remove_gap_fields[OF r2]
      note AD = add_fields[OF ad]
      have h2: "node_heap s2 = ?h" using R1 R2 by simp
      from unlink_prev_effect[of k s2 p] k p Some G h2
      have "unlink_prev s2 k p = Some (s2\<lparr>node_heap := absorb ?h p k, used_nodes := used_nodes s2 - 1\<rparr>)"
        by simp
      with un have s11: "s11 = s2\<lparr>node_heap := absorb ?h p k, used_nodes := used_nodes s2 - 1\<rparr>" by simp
      with R1 R2 AD absorb_weight[OF L A p pk True fk] show ?thesis by simp
    qed
  qed
qed

text \<open>
  A release whose address is first matched by a live block (used and allocated)
  keeps the bytes: the free bytes plus \<open>alloc_size\<close> stay equal to \<open>total_size\<close>.
\<close>

lemma del_alloc_conserves:
  assumes I: "pool_inv s" and C: "conserved s"
    and D: "mem_del_alloc junk s a = Some (st, s')"
    and f: "first_slot (node_heap s) (\<lambda>x. a = rec_mem x) 0 (unat (total_nodes s)) = Some (Some k)"
    and live: "used (node_heap s ! k) = 1" "allocated (node_heap s ! k) \<noteq> 0"
  shows "conserved s'"
proof -
  let ?h = "node_heap s"
  from I have len: "length ?h = 40" and L: "links_ok ?h" and A: "acyclic_heap ?h"
    and H: "head_ok ?h" and N: "noadj ?h"
    and cnt: "unat (used_nodes s) = card (used_slots ?h)"
    and ctr: "num_allocs s + num_gaps s = used_nodes s"
    and tn: "total_nodes s = 40" and mm: "mem s \<noteq> 0"
    by (auto simp: pool_inv_def)
  from first_slot_SomeD[OF f] have k: "k < length ?h" by simp
  define s3 where "s3 = s\<lparr>node_heap := ?h[k := (?h ! k)\<lparr>allocated := 0\<rparr>],
      num_allocs := num_allocs s - 1,
      alloc_size := alloc_size s - rec_size (?h ! k)\<rparr>"
  from D f k obtain s5 st6 s6 st8 where fm: "forward_merge s3 k = Some s5"
    and ad: "mem_add_to_gap_ix s5 (rec_size (node_heap s5 ! k)) k = Some (st6, s6)"
    and bm: "backward_merge s6 k = Some (st8, s')"
    by (auto simp: mem_del_alloc_def bind_eq_Some_conv upd_node_def wr_def get_node_def rd_def s3_def
        split: if_splits)
  note FU = flag_update[of k ?h "(?h ! k)\<lparr>allocated := 0\<rparr>", OF k]
  have m3: "mid_inv s3 k 1"
    unfolding mid_inv_def
    using len k FU(1)[OF _ _ _ _ L] FU(2)[OF _ _ _ _ A] FU(3)[OF _ _ _ _ H] FU(4) noadj_to_except[OF N]
      cnt ctr tn mm links_okD(2)[OF L k]
    by (simp add: s3_def)
  have u3: "used (node_heap s3 ! k) = 1" using live k by (simp add: s3_def)
  have w3: "sum_list (map weight (node_heap s3)) = sum_list (map weight ?h) + rec_size (?h ! k)"
    using k live by (simp add: s3_def weight_sum_update weight_def free_block_def)
  from forward_merge_mid[OF m3 fm] have m5: "mid_inv s5 k 1" by simp
  note W5 = forward_merge_weight[OF m3 u3 fm]
  note AD = add_fields[OF ad]
  have m6: "mid_inv s6 k 0" using m5 AD by (simp add: mid_inv_def add.assoc)
  have u6: "used (node_heap s6 ! k) = 1" using W5 AD(1) by simp
  note W6 = backward_merge_weight[OF m6 u6 bm]
  have "sum_list (map weight (node_heap s')) = sum_list (map weight ?h) + rec_size (?h ! k)"
    using W6 AD(1) W5 w3 by simp
  moreover have "alloc_size s' = alloc_size s - rec_size (?h ! k)" "total_size s' = total_size s"
    using W6 AD W5 by (simp_all add: s3_def)
  ultimately show ?thesis using C by (simp add: conserved_def free_bytes_weight)
qed

text \<open>An allocation keeps the bytes, whatever the request.\<close>

lemma new_alloc_conserves:
  assumes I: "pool_inv s" and C: "conserved s" and D: "mem_new_alloc junk s sz = Some (r, s')"
  shows "conserved s'"
proof -
  let ?h = "node_heap s"
  from I have len: "length ?h = 40" and L: "links_ok ?h" and A: "acyclic_heap ?h"
    and cnt: "unat (used_nodes s) = card (used_slots ?h)"
    and tn: "total_nodes s = 40"
    by (auto simp: pool_inv_def)
  show ?thesis
  proof (cases "r = None")
    case True
    with new_alloc_inv[OF I D] C show ?thesis by simp
  next
    case False
    with D obtain i where sel: "select_node s sz = Some (Some i)"
      and guard: "num_gaps s \<noteq> 0" "\<not> total_nodes s \<le> used_nodes s"
      by (auto simp: mem_new_alloc_def split: if_splits option.splits)
    from select_nodeD[OF sel] have i: "i < length ?h" and fi: "fits sz (?h ! i)" by auto
    from fi have ai: "allocated (?h ! i) = 0" and le: "sz \<le> rec_size (?h ! i)" by (auto simp: fits_def)
    let ?x = "(?h ! i)\<lparr>allocated := 1, rec_size := sz\<rparr>"
    let ?h5 = "?h[i := ?x]"
    from D sel guard i obtain st3 s3 where rm: "mem_remove_from_gap_ix (s\<lparr>num_allocs := num_allocs s + 1,
          alloc_size := alloc_size s + sz\<rparr>) i = Some (st3, s3)"
      by (auto simp: mem_new_alloc_def bind_eq_Some_conv get_node_def rd_def)
    note R = remove_fields[OF rm]
    define s5 where "s5 = s3\<lparr>node_heap := ?h5\<rparr>"
    have f5: "node_heap s5 = ?h5" "total_nodes s5 = 40" "alloc_size s5 = alloc_size s + sz"
      "total_size s5 = total_size s"
      using R tn by (simp_all add: s5_def)
    have sz0: "used (?h ! i) = 0 \<longrightarrow> rec_size ?x = 0"
      using links_okD(2)[OF L i] le by auto
    note FU = flag_update[of i ?h ?x, OF i _ _ _ sz0]
    have L5: "links_ok ?h5" and A5: "acyclic_heap ?h5" and U5: "used_slots ?h5 = used_slots ?h"
      using FU(1)[OF _ _ _ L] FU(2)[OF _ _ _ A] FU(4) by simp_all
    have len5: "length ?h5 = 40" using len by simp
    have wi: "weight (?h ! i) = rec_size (?h ! i)"
      using links_okD(1,2)[OF L i] ai by (auto simp: weight_def free_block_def)
    have w5: "sum_list (map weight ?h5) = sum_list (map weight ?h) - rec_size (?h ! i)"
      using i wi by (simp add: weight_sum_update weight_def free_block_def)
    from D sel guard i rm
    have D5: "(if rec_size (?h ! i) - sz \<noteq> 0 then do {
               found \<leftarrow> first_slot (node_heap s5) (\<lambda>x. used x = 0) 0 (unat (total_nodes s5));
               (case (case found of Some i \<Rightarrow> Some i | None \<Rightarrow> junk) of
                  None \<Rightarrow> Some (None, s5)
                | Some unused_node \<Rightarrow> do {
                    s6 \<leftarrow> split_node s5 i unused_node sz (rec_size (?h ! i) - sz);
                    Some (Some i, s6)
                  })
             } else Some (Some i, s5)) = Some (r, s')"
      unfolding s5_def using R(1)
      by (simp add: mem_new_alloc_def get_node_def rd_def upd_node_def wr_def)
    show ?thesis
    proof (cases "rec_size (?h ! i) - sz = 0")
      case True
      with D5 have "s' = s5" by simp
      moreover from True have "rec_size (?h ! i) = sz" by simp
      ultimately show ?thesis using C f5 w5 by (simp add: conserved_def free_bytes_weight)
    next
      case rem: False
      have ui: "used (?h ! i) = 1"
      proof (rule ccontr)
        assume "used (?h ! i) \<noteq> 1"
        with links_okD(1)[OF L i] have "used (?h ! i) = 0" by auto
        with links_okD(2)[OF L i] have "rec_size (?h ! i) = 0" by simp
        with le have "sz = 0" by simp
        with \<open>rec_size (?h ! i) = 0\<close> rem show False by simp
      qed
      have ui5: "used (?h5 ! i) = 1" using ui i by simp
      have i5: "i < length ?h5" using i by simp
      from len5 f5 have "unat (total_nodes s5) \<le> length (node_heap s5)" by simp
      from first_slot_total[OF this] obtain found
        where f: "first_slot (node_heap s5) (\<lambda>x. used x = 0) 0 (unat (total_nodes s5)) = Some found" by blast
      have "found \<noteq> None"
      proof
        assume "found = None"
        with first_slot_NoneD[OF f[unfolded this]] f5 have "\<forall>m<40. used (?h5 ! m) \<noteq> 0" by simp
        from all_used_card[OF len5 L5 this] U5 cnt have "unat (used_nodes s) = 40" by simp
        with guard(2) tn show False by (simp add: word_le_nat_alt)
      qed
      then obtain u where fu: "found = Some u" by auto
      from first_slot_SomeD[OF f[unfolded fu]] f5 have u: "u < length ?h5" and uu: "used (?h5 ! u) = 0" by auto
      from D5 rem f fu obtain s6 where sp: "split_node s5 i u sz (rec_size (?h ! i) - sz) = Some s6"
        and res: "s' = s6" by (auto simp: bind_eq_Some_conv)
      from sp obtain s9 st10 where la: "link_after s5 i u sz (rec_size (?h ! i) - sz) = Some s9"
        and ad: "mem_add_to_gap_ix s9 (rec_size (?h ! i) - sz) u = Some (st10, s6)"
        by (auto simp: split_node_def bind_eq_Some_conv split: if_splits)
      note G = unused_facts[OF L5 A5 i5 u ui5 uu]
      from link_after_effect[of i s5 u sz "rec_size (?h ! i) - sz"] i5 u G f5(1)
      have "link_after s5 i u sz (rec_size (?h ! i) - sz)
            = Some (s5\<lparr>node_heap := insert_after ?h5 i u sz (rec_size (?h ! i) - sz), used_nodes := used_nodes s5 + 1\<rparr>)"
        by simp
      with la have s9: "s9 = s5\<lparr>node_heap := insert_after ?h5 i u sz (rec_size (?h ! i) - sz), used_nodes := used_nodes s5 + 1\<rparr>"
        by simp
      note AD = add_fields[OF ad]
      have "sum_list (map weight (node_heap s')) = sum_list (map weight ?h) - rec_size (?h ! i) + (rec_size (?h ! i) - sz)"
        using res s9 AD insert_after_weight[OF L5 A5 i5 u ui5 uu] w5 by simp
      moreover have "alloc_size s' = alloc_size s + sz" "total_size s' = total_size s"
        using res s9 AD f5 by simp_all
      ultimately show ?thesis using C by (simp add: conserved_def free_bytes_weight)
    qed
  qed
qed

lemma init_conserved: "conserved (init_mgr buf sz pol)"
proof -
  have "sum_list (map weight (replicate n zero_node)) = 0" for n
    by (induction n) (simp_all add: weight_def free_block_def zero_node_def)
  then show ?thesis
    by (simp add: conserved_def free_bytes_weight init_mgr_def MEM_NODE_HEAP_INIT_CAPACITY_def
        weight_sum_update weight_def free_block_def init_node_def zero_node_def)
qed

lemma reachable_live_reachable: "reachable_live s \<Longrightarrow> reachable s"
proof (induction rule: reachable_live.induct)
  case (opened_live buf sz pol)
  then show ?case by (rule reachable.opened)
next
  case (allocated_live s junk sz r s')
  from reachable.allocated[OF allocated_live.IH allocated_live.hyps(2)] show ?case .
next
  case (freed_live s a k junk st s')
  from reachable.freed[OF freed_live.IH freed_live.hyps(5)] show ?case .
qed

text \<open>
  C2, amended: along every sequence of allocations and releases in which the slot
  that each release finds for its address (the first slot with that address) holds
  a live block, used and allocated, the sizes of the active free blocks plus
  \<open>alloc_size\<close> equal \<open>total_size\<close> at every point.
\<close>

theorem bytes_conserved:
  assumes "reachable_live s"
  shows "free_bytes s + alloc_size s = total_size s"
proof -
  from assms have "conserved s"
  proof (induction rule: reachable_live.induct)
    case (opened_live buf sz pol)
    show ?case by (rule init_conserved)
  next
    case (allocated_live s junk sz r s')
    from new_alloc_conserves[OF reachable_inv[OF reachable_live_reachable[OF allocated_live.hyps(1)]]
        allocated_live.IH allocated_live.hyps(2)]
    show ?case .
  next
    case (freed_live s a k junk st s')
    from del_alloc_conserves[OF reachable_inv[OF reachable_live_reachable[OF freed_live.hyps(1)]]
        freed_live.IH freed_live.hyps(5) freed_live.hyps(2) freed_live.hyps(3) freed_live.hyps(4)]
    show ?case .
  qed
  then show ?thesis by (simp add: conserved_def)
qed

theorem bytes_conserved_witness:
  "(case run (init_mgr 1000 100 BEST_FIT) [Alloc 30, Alloc 20, Free 0] of
      None \<Rightarrow> False
    | Some s \<Rightarrow> free_bytes s + alloc_size s = total_size s \<and> alloc_size s = 20 \<and> free_bytes s = 80)"
proof -
  let ?s0 = "init_mgr 1000 100 BEST_FIT"
  let ?s1 = "snd (the (mem_new_alloc None ?s0 30))"
  let ?s2 = "snd (the (mem_new_alloc None ?s1 20))"
  let ?s3 = "snd (the (mem_del_alloc None ?s2 1000))"
  have b: "(1000 :: addr) \<noteq> 0" by simp
  have a1: "mem_new_alloc None ?s0 30 = Some (Some 0, ?s1)" by code_simp
  have a2: "mem_new_alloc None ?s1 20 = Some (Some 1, ?s2)" by code_simp
  have f: "first_slot (node_heap ?s2) (\<lambda>x. 1000 = rec_mem x) 0 (unat (total_nodes ?s2)) = Some (Some 0)"
    by code_simp
  have l: "used (node_heap ?s2 ! 0) = 1" "allocated (node_heap ?s2 ! 0) \<noteq> 0" by code_simp+
  have d: "mem_del_alloc None ?s2 1000 = Some (ALLOC_OK, ?s3)" by code_simp
  have r: "reachable_live ?s3"
    by (rule reachable_live.freed_live[OF
          reachable_live.allocated_live[OF reachable_live.allocated_live[OF reachable_live.opened_live[OF b] a1] a2]
          f l d])
  have e: "run ?s0 [Alloc 30, Alloc 20, Free 0] = Some ?s3" by code_simp
  have v: "alloc_size ?s3 = 20 \<and> free_bytes ?s3 = 80" by code_simp
  from bytes_conserved[OF r] e v show ?thesis by simp
qed

subsection \<open>Allocation without remainder\<close>

text \<open>
  C10 at a failing input: in a FIRST_FIT pool of 10 bytes, after the calls below, slot
  0 and slot 2 are allocated, slot 1 is a retired slot (unused, size 0, not
  allocated) and slot 3 is the only gap, with the only entry of the gap index. A
  request of 0 bytes selects slot 1, whose size equals the request; its removal from
  the gap index finds no entry for it and removes entry 0, the entry of slot 3, which
  stays an active free block with no entry; slot 1 is handed out with \<open>used\<close> still 0.
\<close>

theorem exact_fit_removes_other_entry:
  "(case run (init_mgr 1000 10 FIRST_FIT) [Alloc 4, Alloc 3, Free 0, Alloc 2, Alloc 3, Free 1] of
      None \<Rightarrow> False
    | Some s \<Rightarrow>
        num_gaps s = 1 \<and> gap_ix s ! 0 = \<lparr>gap_size = 5, gap_node = Some 3\<rparr> \<and>
        free_block (node_heap s ! 3) \<and>
        used (node_heap s ! 1) = 0 \<and> fits 0 (node_heap s ! 1) \<and> rec_size (node_heap s ! 1) = 0 \<and>
        (case mem_new_alloc None s 0 of
           None \<Rightarrow> False
         | Some (r, s') \<Rightarrow>
             r = Some 1 \<and> num_gaps s' = 0 \<and> gap_ix s' ! 0 = zero_gap \<and>
             free_block (node_heap s' ! 3) \<and> used (node_heap s' ! 1) = 0 \<and>
             allocated (node_heap s' ! 1) = 1))"
  by code_simp

text \<open>
  What an allocation without remainder does in any state: the counters and the
  node heap change as C10 says, and the gap index is what the removal of the
  selected node leaves.
\<close>

lemma exact_fit_frame:
  assumes "mem_new_alloc junk s sz = Some (Some i, s')" and "rec_size (node_heap s ! i) = sz"
  shows "used_nodes s' = used_nodes s \<and>
         node_heap s' = (node_heap s)[i := (node_heap s ! i)\<lparr>allocated := 1\<rparr>] \<and>
         num_allocs s' = num_allocs s + 1 \<and> alloc_size s' = alloc_size s + sz \<and>
         num_gaps s' = num_gaps s - 1 \<and>
         (\<exists>s3. mem_remove_from_gap_ix (s\<lparr>num_allocs := num_allocs s + 1, alloc_size := alloc_size s + sz\<rparr>) i
                 = Some (ALLOC_OK, s3) \<and>
               gap_ix s' = gap_ix s3 \<and> gap_ix_capacity s' = gap_ix_capacity s3)"
proof -
  from assms(1) have sel: "select_node s sz = Some (Some i)"
    by (auto simp: mem_new_alloc_def bind_eq_Some_conv split: if_splits option.splits)
  from select_nodeD[OF sel] have i: "i < length (node_heap s)" by simp
  from assms(1) sel i obtain st3 s3 where rm: "mem_remove_from_gap_ix (s\<lparr>num_allocs := num_allocs s + 1,
          alloc_size := alloc_size s + sz\<rparr>) i = Some (st3, s3)"
    by (auto simp: mem_new_alloc_def bind_eq_Some_conv get_node_def rd_def split: if_splits)
  note R = remove_fields[OF rm]
  from assms sel i rm R(1)
  have s': "s' = s3\<lparr>node_heap := (node_heap s)[i := (node_heap s ! i)\<lparr>allocated := 1, rec_size := sz\<rparr>]\<rparr>"
    by (auto simp: mem_new_alloc_def get_node_def rd_def upd_node_def wr_def split: if_splits)
  have "(node_heap s ! i)\<lparr>allocated := 1, rec_size := sz\<rparr> = (node_heap s ! i)\<lparr>allocated := 1\<rparr>"
    using assms(2) by simp
  with s' R rm show ?thesis by simp
qed

lemma shift_down_nth:
  assumes "shift_down g i n = Some g'"
  shows "length g' = length g \<and>
         (\<forall>m<length g. g' ! m = (if i \<le> m \<and> m < n then g ! Suc m else g ! m))"
  using assms
proof (induction g i n arbitrary: g' rule: shift_down.induct)
  case (1 g i n)
  show ?case
  proof (cases "i < n")
    case False
    with "1.prems" have "g' = g" by (simp add: shift_down.simps[of g i n])
    with False show ?thesis by auto
  next
    case True
    with "1.prems" have sl: "Suc i < length g"
      and r: "shift_down (g[i := g ! Suc i]) (Suc i) n = Some g'"
      by (auto simp: shift_down.simps[of g i n] rd_def split: if_splits)
    have e: "rd g (Suc i) = Some (g ! Suc i)" using sl by (simp add: rd_def)
    from "1.IH"[OF True e r]
    have l: "length g' = length g"
      and ih: "\<forall>m<length g. g' ! m = (if Suc i \<le> m \<and> m < n then g[i := g ! Suc i] ! Suc m
                                          else g[i := g ! Suc i] ! m)"
      by simp_all
    have "g' ! m = (if i \<le> m \<and> m < n then g ! Suc m else g ! m)" if m: "m < length g" for m
    proof (cases "m = i")
      case True
      with ih m sl \<open>i < n\<close> show ?thesis by simp
    next
      case False
      with ih m show ?thesis by (auto simp: nth_list_update)
    qed
    with l show ?thesis by simp
  qed
qed

lemma gap_position_found:
  assumes "gap_position g nd i n = Some k" and "\<exists>m. i \<le> m \<and> m < n \<and> gap_node (g ! m) = Some nd"
  shows "i \<le> k \<and> k < n \<and> k < length g \<and> gap_node (g ! k) = Some nd \<and>
         (\<forall>m. i \<le> m \<and> m < k \<longrightarrow> gap_node (g ! m) \<noteq> Some nd)"
  using assms
proof (induction g nd i n rule: gap_position.induct)
  case (1 g nd i n)
  from "1.prems"(2) have lt: "i < n" by auto
  with "1.prems"(1) have il: "i < length g"
    by (auto simp: gap_position.simps[of g nd i n] rd_def split: if_splits)
  show ?case
  proof (cases "gap_node (g ! i) = Some nd")
    case True
    with "1.prems"(1) lt il have "k = i" by (simp add: gap_position.simps[of g nd i n] rd_def)
    with True lt il show ?thesis by auto
  next
    case False
    with "1.prems"(1) lt il have r: "gap_position g nd (Suc i) n = Some k"
      by (simp add: gap_position.simps[of g nd i n] rd_def)
    from "1.prems"(2) False have ex: "\<exists>m. Suc i \<le> m \<and> m < n \<and> gap_node (g ! m) = Some nd"
      by (metis Suc_leI le_neq_implies_less)
    have e: "rd g i = Some (g ! i)" using il by (simp add: rd_def)
    from "1.IH"[OF lt e False r ex]
    have ih: "Suc i \<le> k \<and> k < n \<and> k < length g \<and> gap_node (g ! k) = Some nd \<and>
         (\<forall>m. Suc i \<le> m \<and> m < k \<longrightarrow> gap_node (g ! m) \<noteq> Some nd)" .
    have "gap_node (g ! m) \<noteq> Some nd" if "i \<le> m \<and> m < k" for m
      using that ih False by (cases "m = i") auto
    with ih show ?thesis by auto
  qed
qed

text \<open>
  The removal of a node that is listed among the first \<open>num_gaps\<close> entries, with
  \<open>num_gaps\<close> within the recorded capacity: the entries before its first position
  \<open>k\<close> stay, the later ones move one place down, and the last one is zeroed.
\<close>

lemma remove_listed_entry:
  assumes r: "mem_remove_from_gap_ix s nd = Some (st, s')"
    and listed: "\<exists>m < unat (num_gaps s). gap_node (gap_ix s ! m) = Some nd"
    and cap: "num_gaps s \<le> gap_ix_capacity s"
  shows "\<exists>k < unat (num_gaps s).
           gap_node (gap_ix s ! k) = Some nd \<and>
           (\<forall>m<k. gap_node (gap_ix s ! m) \<noteq> Some nd) \<and>
           unat (num_gaps s') = unat (num_gaps s) - 1 \<and>
           (\<forall>m < unat (num_gaps s').
              gap_ix s' ! m = (if m < k then gap_ix s ! m else gap_ix s ! Suc m)) \<and>
           gap_ix s' ! unat (num_gaps s') = zero_gap"
proof -
  let ?g = "gap_ix s" and ?n = "unat (num_gaps s)"
  from r obtain k g1 g2 where p: "gap_position ?g nd 0 ?n = Some k"
    and sh: "shift_down ?g k (unat (gap_ix_capacity s - 1)) = Some g1"
    and w: "wr g1 (unat (num_gaps s - 1)) (\<lambda>_. zero_gap) = Some g2"
    and s': "s' = s\<lparr>gap_ix := g2, num_gaps := num_gaps s - 1, gap_ix_capacity := gap_ix_capacity s - 1\<rparr>"
    by (auto simp: mem_remove_from_gap_ix_def split: option.splits)
  from listed have ex: "\<exists>m. 0 \<le> m \<and> m < ?n \<and> gap_node (?g ! m) = Some nd" by auto
  from gap_position_found[OF p ex]
  have k: "k < ?n" "k < length ?g" "gap_node (?g ! k) = Some nd"
    and first: "\<forall>m<k. gap_node (?g ! m) \<noteq> Some nd" by auto
  from k(1) have n0: "num_gaps s \<noteq> 0" by (auto simp: unat_eq_0)
  then have n1: "unat (num_gaps s - 1) = ?n - 1" by (simp add: unat_minus_one)
  from n0 cap have c0: "gap_ix_capacity s \<noteq> 0" by auto
  then have c1: "unat (gap_ix_capacity s - 1) = unat (gap_ix_capacity s) - 1" by (simp add: unat_minus_one)
  from cap have cl: "?n \<le> unat (gap_ix_capacity s)" by (simp add: word_le_nat_alt)
  from shift_down_nth[OF sh]
  have l1: "length g1 = length ?g"
    and n1': "\<forall>m<length ?g. g1 ! m = (if k \<le> m \<and> m < unat (gap_ix_capacity s - 1) then ?g ! Suc m else ?g ! m)"
    by simp_all
  from w have wl: "?n - 1 < length g1" and g2: "g2 = g1[?n - 1 := zero_gap]"
    using n1 by (auto simp: wr_def split: if_splits)
  have "gap_ix s' ! m = (if m < k then ?g ! m else ?g ! Suc m)" if m: "m < unat (num_gaps s')" for m
  proof -
    from m s' n1 have m1: "m < ?n - 1" by simp
    with wl l1 have ml: "m < length ?g" by simp
    from m1 cl c1 have mc: "m < unat (gap_ix_capacity s - 1)" by simp
    from m1 g2 s' have "gap_ix s' ! m = g1 ! m" by simp
    with n1' ml mc show ?thesis by auto
  qed
  moreover have "gap_ix s' ! unat (num_gaps s') = zero_gap" using s' n1 g2 wl by simp
  moreover have "unat (num_gaps s') = ?n - 1" using s' n1 by simp
  ultimately show ?thesis using k first by blast
qed

subsection \<open>FIRST_FIT\<close>

text \<open>
  The loops over the gap index have a defined result when they stay inside the
  array. Past the two entry tests, an allocation whose scan selects a node hands out
  that node whenever it returns, and it returns when the gap index satisfies
  \<open>gap_ix_ok\<close>. A positive request fits an unallocated slot only if the slot is an
  active free block, since a retired slot has size 0.
\<close>

lemma gap_position_total:
  "n \<le> length g \<Longrightarrow> \<exists>k. gap_position g nd i n = Some k \<and> k < max n 1"
proof (induction g nd i n rule: gap_position.induct)
  case (1 g nd i n)
  show ?case
  proof (cases "i < n")
    case False
    then show ?thesis by (simp add: gap_position.simps[of g nd i n])
  next
    case True
    with "1.prems" have il: "i < length g" by simp
    then have e: "rd g i = Some (g ! i)" by (simp add: rd_def)
    show ?thesis
    proof (cases "gap_node (g ! i) = Some nd")
      case True
      with \<open>i < n\<close> e show ?thesis by (simp add: gap_position.simps[of g nd i n])
    next
      case False
      from "1.IH"[OF True e False "1.prems"] True e False show ?thesis
        by (simp add: gap_position.simps[of g nd i n])
    qed
  qed
qed

lemma shift_down_total:
  "n < length g \<Longrightarrow> \<exists>g'. shift_down g i n = Some g'"
proof (induction g i n rule: shift_down.induct)
  case (1 g i n)
  show ?case
  proof (cases "i < n")
    case False
    then show ?thesis by (simp add: shift_down.simps[of g i n])
  next
    case True
    with "1.prems" have e: "rd g (Suc i) = Some (g ! Suc i)" by (simp add: rd_def)
    from "1.IH"[OF True e] "1.prems" True e show ?thesis
      by (simp add: shift_down.simps[of g i n])
  qed
qed

lemma sort_pass_total:
  "i < length g \<Longrightarrow> \<forall>m\<le>i. deref h (gap_node (g ! m)) \<noteq> None \<Longrightarrow> \<exists>g'. sort_pass h g i = Some g'"
proof (induction i arbitrary: g)
  case 0
  then show ?case by simp
next
  case (Suc i)
  from Suc.prems(2) obtain na nb where a: "deref h (gap_node (g ! Suc i)) = Some na"
    and b: "deref h (gap_node (g ! i)) = Some nb"
    by (metis le_Suc_eq not_None_eq order_refl)
  then obtain t where gb: "gap_before h (g ! Suc i) (g ! i) = Some t" by (simp add: gap_before_def)
  show ?case
  proof (cases t)
    case False
    from Suc.IH[of g] Suc.prems have "\<exists>g'. sort_pass h g i = Some g'" by simp
    with gb False Suc.prems(1) show ?thesis by simp
  next
    case True
    let ?g = "g[i := g ! Suc i, Suc i := g ! i]"
    have "\<forall>m\<le>i. deref h (gap_node (?g ! m)) \<noteq> None"
      using Suc.prems by (auto simp: nth_list_update)
    with Suc.IH[of ?g] Suc.prems(1) have "\<exists>g'. sort_pass h ?g i = Some g'" by simp
    with gb True Suc.prems(1) show ?thesis by simp
  qed
qed

lemma sint_le_uint: "sint (w :: 32 word) \<le> uint w"
proof (cases "0 \<le> sint w")
  case True
  have "sint w < 2 ^ 31" using sint_lt[of w] by simp
  also have "(2::int) ^ 31 \<le> 2 ^ 32" by (rule power_increasing) simp_all
  finally have "sint w < 2 ^ 32" .
  with True have "take_bit 32 (sint w) = sint w" by (rule take_bit_int_eq_self)
  with uint_sint[of w] show ?thesis by simp
next
  case False
  have "0 \<le> uint w" by simp
  with False show ?thesis by linarith
qed

lemma nat_sint_le: "nat (sint (w :: 32 word)) \<le> unat w"
  using nat_mono[OF sint_le_uint[of w]] by (simp only: unat_eq_nat_uint)

lemma entry_ok_deref: "entry_ok h e \<Longrightarrow> length h' = length h \<Longrightarrow> deref h' (gap_node e) \<noteq> None"
  by (auto simp: entry_ok_def deref_def rd_def split: option.splits)

lemma remove_total:
  assumes n0: "num_gaps s \<noteq> 0" and cl: "unat (gap_ix_capacity s) \<le> length (gap_ix s)"
    and nc: "num_gaps s \<le> gap_ix_capacity s"
    and P: "\<forall>m < unat (num_gaps s). P (gap_ix s ! m)"
  shows "\<exists>s'. mem_remove_from_gap_ix s nd = Some (ALLOC_OK, s') \<and>
              length (gap_ix s') = length (gap_ix s) \<and>
              num_gaps s' = num_gaps s - 1 \<and> gap_ix_capacity s' = gap_ix_capacity s - 1 \<and>
              unat (num_gaps s') = unat (num_gaps s) - 1 \<and>
              (\<forall>m < unat (num_gaps s) - 1. P (gap_ix s' ! m))"
proof -
  let ?g = "gap_ix s" and ?n = "unat (num_gaps s)" and ?c = "unat (gap_ix_capacity s)"
  from nc have ncn: "?n \<le> ?c" by (simp add: word_le_nat_alt)
  from n0 have n1: "1 \<le> ?n" by (simp add: unat_gt_0 Suc_le_eq)
  with n0 have nm: "unat (num_gaps s - 1) = ?n - 1" by (simp add: unat_minus_one)
  from n1 ncn have "gap_ix_capacity s \<noteq> 0" by (auto simp: unat_eq_0)
  then have cm: "unat (gap_ix_capacity s - 1) = ?c - 1" by (simp add: unat_minus_one)
  from ncn cl have nl: "?n \<le> length ?g" by simp
  from gap_position_total[OF nl, of nd 0] obtain k where k: "gap_position ?g nd 0 ?n = Some k" and kn: "k < ?n"
    using n1 by (auto simp: max_def split: if_splits)
  from n1 ncn cl have c1: "?c - 1 < length ?g" by simp
  from shift_down_total[OF c1, of k] obtain g1 where sh: "shift_down ?g k (?c - 1) = Some g1" by blast
  from shift_down_nth[OF sh] have l1: "length g1 = length ?g"
    and e1: "\<forall>m<length ?g. g1 ! m = (if k \<le> m \<and> m < ?c - 1 then ?g ! Suc m else ?g ! m)" by simp_all
  from n1 nl l1 have w: "wr g1 (?n - 1) (\<lambda>_. zero_gap) = Some (g1[?n - 1 := zero_gap])"
    by (simp add: wr_def)
  let ?s' = "s\<lparr>gap_ix := g1[?n - 1 := zero_gap], num_gaps := num_gaps s - 1,
                gap_ix_capacity := gap_ix_capacity s - 1\<rparr>"
  from k sh w nm cm have r: "mem_remove_from_gap_ix s nd = Some (ALLOC_OK, ?s')"
    by (simp add: mem_remove_from_gap_ix_def)
  have "P (gap_ix ?s' ! m)" if m: "m < ?n - 1" for m
  proof -
    from m nl have ml: "m < length ?g" "Suc m < ?n" by simp_all
    from m have "gap_ix ?s' ! m = g1 ! m" by simp
    also from e1 ml have "\<dots> = (if k \<le> m \<and> m < ?c - 1 then ?g ! Suc m else ?g ! m)" by simp
    finally show ?thesis using P ml m by auto
  qed
  with r l1 nm show ?thesis by auto
qed

lemma add_total:
  assumes of: "\<not> over_fill (num_gaps s) (gap_ix_capacity s)"
    and nl: "unat (num_gaps s) < length (gap_ix s)"
    and nd: "nd < length (node_heap s)"
    and P: "\<forall>m < unat (num_gaps s). entry_ok (node_heap s) (gap_ix s ! m)"
  shows "\<exists>st s'. mem_add_to_gap_ix s sz nd = Some (st, s')"
proof -
  let ?g = "gap_ix s" and ?n = "unat (num_gaps s)" and ?h = "node_heap s"
  let ?g' = "?g[?n := \<lparr>gap_size = sz, gap_node = Some nd\<rparr>]"
  from of have rs: "mem_resize_gap_ix s = Some (ALLOC_OK, s)" by (simp add: mem_resize_gap_ix_def)
  from nl have w: "wr ?g ?n (\<lambda>_. \<lparr>gap_size = sz, gap_node = Some nd\<rparr>) = Some ?g'" by (simp add: wr_def)
  note sn = nat_sint_le[of "num_gaps s"]
  have ok: "\<forall>m\<le>?n. deref ?h (gap_node (?g' ! m)) \<noteq> None"
  proof (intro allI impI)
    fix m assume "m \<le> ?n"
    show "deref ?h (gap_node (?g' ! m)) \<noteq> None"
    proof (cases "m = ?n")
      case True
      with nl nd show ?thesis by (simp add: deref_def rd_def)
    next
      case False
      with \<open>m \<le> ?n\<close> have "m < ?n" by simp
      with P entry_ok_deref[of ?h "?g ! m" ?h] False show ?thesis by simp
    qed
  qed
  from nl sn have "nat (sint (num_gaps s)) < length ?g'" by simp
  moreover from ok sn have "\<forall>m\<le>nat (sint (num_gaps s)). deref ?h (gap_node (?g' ! m)) \<noteq> None" by simp
  ultimately obtain g2 where "sort_pass ?h ?g' (nat (sint (num_gaps s))) = Some g2"
    using sort_pass_total by blast
  with rs w show ?thesis
    by (simp add: mem_add_to_gap_ix_def mem_sort_gap_ix_def)
qed

lemma new_alloc_unfold:
  assumes I: "pool_inv s"
    and guard: "num_gaps s \<noteq> 0" "\<not> total_nodes s \<le> used_nodes s"
    and sel: "select_node s sz = Some (Some i)"
    and rm: "mem_remove_from_gap_ix (s\<lparr>num_allocs := num_allocs s + 1,
          alloc_size := alloc_size s + sz\<rparr>) i = Some (st3, s3)"
  shows "\<exists>u<40. mem_new_alloc junk s sz =
           (let h5 = (node_heap s)[i := (node_heap s ! i)\<lparr>allocated := 1, rec_size := sz\<rparr>];
                rem = rec_size (node_heap s ! i) - sz
            in if rem = 0 then Some (Some i, s3\<lparr>node_heap := h5\<rparr>)
               else (case mem_add_to_gap_ix
                            (s3\<lparr>node_heap := insert_after h5 i u sz rem, used_nodes := used_nodes s + 1\<rparr>)
                            rem u of
                       None \<Rightarrow> None
                     | Some (st, s10) \<Rightarrow> Some (Some i, s10)))"
proof -
  let ?h = "node_heap s"
  from I have len: "length ?h = 40" and L: "links_ok ?h" and A: "acyclic_heap ?h"
    and H: "head_ok ?h" and N: "noadj ?h"
    and cnt: "unat (used_nodes s) = card (used_slots ?h)"
    and ctr: "num_allocs s + num_gaps s = used_nodes s"
    and tn: "total_nodes s = 40" and mm: "mem s \<noteq> 0"
    by (auto simp: pool_inv_def)
  from select_nodeD[OF sel] have i: "i < length ?h" and fi: "fits sz (?h ! i)" by auto
  from fi have ai: "allocated (?h ! i) = 0" and le: "sz \<le> rec_size (?h ! i)" by (auto simp: fits_def)
  let ?x = "(?h ! i)\<lparr>allocated := 1, rec_size := sz\<rparr>"
  let ?h5 = "?h[i := ?x]"
  let ?rem = "rec_size (?h ! i) - sz"
  note R = remove_fields[OF rm]
  define s5 where "s5 = s3\<lparr>node_heap := ?h5\<rparr>"
  have f5: "node_heap s5 = ?h5" "total_nodes s5 = 40" "mem s5 \<noteq> 0" "used_nodes s5 = used_nodes s"
    "num_allocs s5 = num_allocs s + 1" "num_gaps s5 = num_gaps s - 1"
    using R tn mm by (simp_all add: s5_def)
  have sz0: "used (?h ! i) = 0 \<longrightarrow> rec_size ?x = 0"
    using links_okD(2)[OF L i] le by auto
  note FU = flag_update[of i ?h ?x, OF i _ _ _ sz0]
  have L5: "links_ok ?h5" and A5: "acyclic_heap ?h5" and H5: "head_ok ?h5"
    and U5: "used_slots ?h5 = used_slots ?h"
    using FU(1)[OF _ _ _ L] FU(2)[OF _ _ _ A] FU(3)[OF _ _ _ H] FU(4) by simp_all
  have len5: "length ?h5 = 40" using len by simp
  from sel guard i rm
  have E5: "mem_new_alloc junk s sz =
            (if ?rem \<noteq> 0 then do {
               found \<leftarrow> first_slot (node_heap s5) (\<lambda>x. used x = 0) 0 (unat (total_nodes s5));
               (case (case found of Some i \<Rightarrow> Some i | None \<Rightarrow> junk) of
                  None \<Rightarrow> Some (None, s5)
                | Some unused_node \<Rightarrow> do {
                    s6 \<leftarrow> split_node s5 i unused_node sz ?rem;
                    Some (Some i, s6)
                  })
             } else Some (Some i, s5))"
    unfolding s5_def using R(1)
    by (simp add: mem_new_alloc_def get_node_def rd_def upd_node_def wr_def)
  show ?thesis
  proof (cases "?rem = 0")
    case True
    with E5 have "mem_new_alloc junk s sz = Some (Some i, s5)" by simp
    with True show ?thesis unfolding s5_def Let_def by (intro exI[of _ 0]) simp
  next
    case rem: False
    have ui: "used (?h ! i) = 1"
    proof (rule ccontr)
      assume "used (?h ! i) \<noteq> 1"
      with links_okD(1)[OF L i] have "used (?h ! i) = 0" by auto
      with links_okD(2)[OF L i] have "rec_size (?h ! i) = 0" by simp
      with le have "sz = 0" by simp
      with \<open>rec_size (?h ! i) = 0\<close> rem show False by simp
    qed
    have ui5: "used (?h5 ! i) = 1" using ui i by simp
    have i5: "i < length ?h5" using i by simp
    from len5 f5 have "unat (total_nodes s5) \<le> length (node_heap s5)" by simp
    from first_slot_total[OF this] obtain found
      where f: "first_slot (node_heap s5) (\<lambda>x. used x = 0) 0 (unat (total_nodes s5)) = Some found" by blast
    have "found \<noteq> None"
    proof
      assume "found = None"
      with first_slot_NoneD[OF f[unfolded this]] f5 have "\<forall>m<40. used (?h5 ! m) \<noteq> 0" by simp
      from all_used_card[OF len5 L5 this] U5 cnt have "unat (used_nodes s) = 40" by simp
      with guard(2) tn show False by (simp add: word_le_nat_alt)
    qed
    then obtain u where fu: "found = Some u" by auto
    from first_slot_SomeD[OF f[unfolded fu]] f5 have u: "u < length ?h5" and uu: "used (?h5 ! u) = 0" by auto
    note G = unused_facts[OF L5 A5 i5 u ui5 uu]
    from link_after_effect[of i s5 u sz ?rem] i5 u G f5(1)
    have la: "link_after s5 i u sz ?rem
          = Some (s5\<lparr>node_heap := insert_after ?h5 i u sz ?rem, used_nodes := used_nodes s5 + 1\<rparr>)"
      by simp
    have s9: "s5\<lparr>node_heap := insert_after ?h5 i u sz ?rem, used_nodes := used_nodes s5 + 1\<rparr>
              = s3\<lparr>node_heap := insert_after ?h5 i u sz ?rem, used_nodes := used_nodes s + 1\<rparr>"
      using f5(4) by (simp add: s5_def)
    let ?s9 = "s3\<lparr>node_heap := insert_after ?h5 i u sz ?rem, used_nodes := used_nodes s + 1\<rparr>"
    have "mem_new_alloc junk s sz =
            (case mem_add_to_gap_ix ?s9 ?rem u of None \<Rightarrow> None | Some (st, s10) \<Rightarrow> Some (Some i, s10))"
    proof (cases "mem_add_to_gap_ix ?s9 ?rem u")
      case None
      with E5 rem f fu la s9 show ?thesis by (simp add: split_node_def)
    next
      case (Some p)
      obtain st s10 where p: "p = (st, s10)" by (cases p)
      from add_fields(10)[OF Some[unfolded p]] have "st = ALLOC_OK" .
      with E5 rem f fu la s9 Some p show ?thesis by (simp add: split_node_def)
    qed
    with rem u len5 show ?thesis unfolding Let_def by (intro exI[of _ u]) simp
  qed
qed

lemma entry_ok_length: "length h' = length h \<Longrightarrow> entry_ok h' e = entry_ok h e"
  by (simp add: entry_ok_def split: option.splits)

lemma new_alloc_selected:
  assumes I: "pool_inv s"
    and guard: "num_gaps s \<noteq> 0" "\<not> total_nodes s \<le> used_nodes s"
    and sel: "select_node s sz = Some (Some i)"
    and D: "mem_new_alloc junk s sz = Some (r, s')"
  shows "r = Some i"
proof -
  from select_nodeD[OF sel] have i: "i < length (node_heap s)" by simp
  from D sel guard i obtain st3 s3 where rm: "mem_remove_from_gap_ix (s\<lparr>num_allocs := num_allocs s + 1,
          alloc_size := alloc_size s + sz\<rparr>) i = Some (st3, s3)"
    by (auto simp: mem_new_alloc_def bind_eq_Some_conv get_node_def rd_def)
  from new_alloc_unfold[OF I guard sel rm, of junk] D show ?thesis
    by (auto simp: Let_def split: if_splits option.splits)
qed

lemma new_alloc_defined:
  assumes I: "pool_inv s"
    and guard: "num_gaps s \<noteq> 0" "\<not> total_nodes s \<le> used_nodes s"
    and sel: "select_node s sz = Some (Some i)"
    and G: "gap_ix_ok s"
  shows "\<exists>s'. mem_new_alloc junk s sz = Some (Some i, s')"
proof -
  let ?h = "node_heap s" and ?g = "gap_ix s" and ?n = "unat (num_gaps s)"
  let ?s2 = "s\<lparr>num_allocs := num_allocs s + 1, alloc_size := alloc_size s + sz\<rparr>"
  from I have len: "length ?h = 40" by (simp add: pool_inv_def)
  from G have cl: "unat (gap_ix_capacity s) \<le> length ?g" and nc: "num_gaps s \<le> gap_ix_capacity s"
    and nf: "\<not> over_fill (num_gaps s - 1) (gap_ix_capacity s - 1)"
    and la: "list_all (entry_ok ?h) (take ?n ?g)"
    by (simp_all add: gap_ix_ok_def)
  from nc cl have nl: "?n \<le> length ?g" by (simp add: word_le_nat_alt)
  from guard(1) have n1: "1 \<le> ?n" by (simp add: unat_gt_0 Suc_le_eq)
  from la nl have P: "\<forall>m < ?n. entry_ok ?h (?g ! m)" by (auto simp: list_all_length)
  from remove_total[of ?s2 "entry_ok ?h" i] guard(1) cl nc P
  obtain s3 where rm: "mem_remove_from_gap_ix ?s2 i = Some (ALLOC_OK, s3)"
    and l3: "length (gap_ix s3) = length ?g"
    and f3: "num_gaps s3 = num_gaps s - 1" "gap_ix_capacity s3 = gap_ix_capacity s - 1"
      "unat (num_gaps s3) = ?n - 1"
    and P3: "\<forall>m < ?n - 1. entry_ok ?h (gap_ix s3 ! m)"
    by auto
  let ?h5 = "?h[i := (?h ! i)\<lparr>allocated := 1, rec_size := sz\<rparr>]"
  let ?rem = "rec_size (?h ! i) - sz"
  from new_alloc_unfold[OF I guard sel rm, of junk] obtain u where u: "u < 40"
    and eq: "mem_new_alloc junk s sz =
           (if ?rem = 0 then Some (Some i, s3\<lparr>node_heap := ?h5\<rparr>)
            else (case mem_add_to_gap_ix
                         (s3\<lparr>node_heap := insert_after ?h5 i u sz ?rem, used_nodes := used_nodes s + 1\<rparr>)
                         ?rem u of
                    None \<Rightarrow> None
                  | Some (st, s10) \<Rightarrow> Some (Some i, s10)))"
    by (auto simp: Let_def)
  show ?thesis
  proof (cases "?rem = 0")
    case True
    with eq show ?thesis by simp
  next
    case False
    let ?s9 = "s3\<lparr>node_heap := insert_after ?h5 i u sz ?rem, used_nodes := used_nodes s + 1\<rparr>"
    have l9: "length (node_heap ?s9) = 40" using len by (simp add: insert_after_length)
    have 1: "\<not> over_fill (num_gaps ?s9) (gap_ix_capacity ?s9)" using nf f3 by simp
    have 2: "unat (num_gaps ?s9) < length (gap_ix ?s9)" using f3 l3 nl n1 by simp
    have 3: "u < length (node_heap ?s9)" using l9 u by simp
    have 4: "\<forall>m < unat (num_gaps ?s9). entry_ok (node_heap ?s9) (gap_ix ?s9 ! m)"
      using P3 f3(3) entry_ok_length[of "node_heap ?s9" ?h] l9 len by simp
    from add_total[OF 1 2 3 4, of ?rem] obtain st s10
      where "mem_add_to_gap_ix ?s9 ?rem u = Some (st, s10)" by blast
    with eq False show ?thesis by simp
  qed
qed

lemma run_reachable:
  "reachable s \<Longrightarrow> run s cs = Some s' \<Longrightarrow> reachable s'"
proof (induction cs arbitrary: s)
  case Nil
  then show ?case by simp
next
  case (Cons c cs)
  from Cons.prems(2) obtain s1 where c: "call_step s c = Some s1" and r: "run s1 cs = Some s'"
    by (auto split: option.splits)
  have "reachable s1"
  proof (cases c)
    case (Alloc sz)
    with c obtain r where "mem_new_alloc None s sz = Some (r, s1)" by auto
    from reachable.allocated[OF Cons.prems(1) this] show ?thesis .
  next
    case (Free h)
    with c obtain x st where "mem_del_alloc None s x = Some (st, s1)"
      by (auto split: option.splits)
    from reachable.freed[OF Cons.prems(1) this] show ?thesis .
  qed
  from Cons.IH[OF this r] show ?case .
qed

lemma fits_active:
  assumes I: "pool_inv s" and R: "R \<noteq> 0" and k: "k < 40"
  shows "fits R (node_heap s ! k) \<longleftrightarrow> free_block (node_heap s ! k) \<and> R \<le> rec_size (node_heap s ! k)"
proof -
  from I have len: "length (node_heap s) = 40" and L: "links_ok (node_heap s)"
    by (simp_all add: pool_inv_def)
  from k len have kl: "k < length (node_heap s)" by simp
  show ?thesis
  proof (cases "used (node_heap s ! k) = 1")
    case True
    then show ?thesis by (simp add: fits_def free_block_def)
  next
    case False
    with links_okD(1)[OF L kl] have "used (node_heap s ! k) = 0" by auto
    with links_okD(2)[OF L kl] have "rec_size (node_heap s ! k) = 0" by simp
    with R False show ?thesis by (simp add: fits_def free_block_def)
  qed
qed

text \<open>
  The two entry tests return \<open>NULL\<close> before the scan, also when an active free block
  fits the request: after 39 allocations of 1 byte in a pool of 100 every slot is
  used and slot 39 is a free block of 61 bytes; after the calls below \<open>num_gaps\<close> is 0
  and slot 3 is an active free block.
\<close>

lemma first_fit_entry_checks:
  "(case run (init_mgr 1000 100 FIRST_FIT) (replicate 39 (Alloc 1)) of
      None \<Rightarrow> False
    | Some s \<Rightarrow>
        policy s = FIRST_FIT \<and> free_block (node_heap s ! 39) \<and> rec_size (node_heap s ! 39) = 61 \<and>
        used_nodes s = total_nodes s \<and> mem_new_alloc None s 1 = Some (None, s)) \<and>
   (case run (init_mgr 1000 10 FIRST_FIT) [Alloc 4, Alloc 3, Free 0, Alloc 2, Alloc 3, Free 1, Alloc 0] of
      None \<Rightarrow> False
    | Some s \<Rightarrow>
        policy s = FIRST_FIT \<and> free_block (node_heap s ! 3) \<and> 1 \<le> rec_size (node_heap s ! 3) \<and>
        num_gaps s = 0 \<and> mem_new_alloc None s 1 = Some (None, s))"
  by code_simp

text \<open>
  C3, as stated, fails: after four allocations of 10 bytes in a pool of 100, freeing
  the second, allocating 5 and freeing the fourth, the free blocks are slot 5
  (5 bytes at 1015) and slot 3 (70 bytes at 1030); a request of 3 bytes gets slot 3,
  not the lower-addressed slot 5.
\<close>

theorem first_fit_address_order_counterexample:
  "(case run (init_mgr 1000 100 FIRST_FIT)
           [Alloc 10, Alloc 10, Alloc 10, Alloc 10, Free 1, Alloc 5, Free 3] of
      None \<Rightarrow> False
    | Some s \<Rightarrow>
        policy s = FIRST_FIT \<and>
        map_option fst (mem_new_alloc None s 3) = Some (Some 3) \<and>
        used (node_heap s ! 5) = 1 \<and> fits 3 (node_heap s ! 5) \<and>
        rec_mem (node_heap s ! 5) = 1015 \<and> rec_mem (node_heap s ! 3) = 1030)"
  by code_simp

text \<open>
  C3, amended: on an open \<open>FIRST_FIT\<close> pool with \<open>num_gaps > 0\<close> and
  \<open>used_nodes < total_nodes\<close>, for a request of \<open>R > 0\<close> bytes, whenever an active free
  block of at least \<open>R\<close> bytes exists, the allocation selects the one in the lowest
  slot of the node heap: every call that returns hands out that node, never \<open>NULL\<close>,
  and the call returns when the gap index is in the state \<open>gap_ix_ok\<close>.
\<close>

theorem first_fit_selects_lowest_slot:
  assumes "reachable s" and "policy s = FIRST_FIT" and "R \<noteq> 0"
    and "num_gaps s \<noteq> 0" and "used_nodes s < total_nodes s"
    and "j < unat (total_nodes s)"
    and "free_block (node_heap s ! j)" and "R \<le> rec_size (node_heap s ! j)"
  shows "\<exists>i\<le>j. free_block (node_heap s ! i) \<and> R \<le> rec_size (node_heap s ! i) \<and>
           (\<forall>k<i. \<not> (free_block (node_heap s ! k) \<and> R \<le> rec_size (node_heap s ! k))) \<and>
           (\<forall>junk r s'. mem_new_alloc junk s R = Some (r, s') \<longrightarrow> r = Some i) \<and>
           (gap_ix_ok s \<longrightarrow> (\<forall>junk. \<exists>s'. mem_new_alloc junk s R = Some (Some i, s')))"
proof -
  note I = reachable_inv[OF assms(1)]
  from I have len: "length (node_heap s) = 40" and tn: "total_nodes s = 40"
    by (simp_all add: pool_inv_def)
  from tn len have tl: "unat (total_nodes s) \<le> length (node_heap s)" by simp
  from assms(6) tn have j: "j < 40" by simp
  from assms(7,8) fits_active[OF I assms(3) j] have fj: "fits R (node_heap s ! j)" by simp
  from first_slot_found[OF tl _ assms(6), of 0 "fits R"] fj
  obtain i where fs: "first_slot (node_heap s) (fits R) 0 (unat (total_nodes s)) = Some (Some i)"
    and ij: "i \<le> j" by auto
  from fs assms(2) have sel: "select_node s R = Some (Some i)" by (simp add: select_node_def)
  from first_slot_SomeD[OF fs]
  have fi: "fits R (node_heap s ! i)" and low: "\<forall>k<i. \<not> fits R (node_heap s ! k)" by auto
  from ij j have i: "i < 40" by simp
  from fi fits_active[OF I assms(3) i]
  have a: "free_block (node_heap s ! i) \<and> R \<le> rec_size (node_heap s ! i)" by simp
  have b: "\<forall>k<i. \<not> (free_block (node_heap s ! k) \<and> R \<le> rec_size (node_heap s ! k))"
  proof (intro allI impI)
    fix k assume k: "k < i"
    with i have "k < 40" by simp
    from fits_active[OF I assms(3) this] low k
    show "\<not> (free_block (node_heap s ! k) \<and> R \<le> rec_size (node_heap s ! k))" by simp
  qed
  from assms(5) have g2: "\<not> total_nodes s \<le> used_nodes s" by simp
  have c: "\<forall>junk r s'. mem_new_alloc junk s R = Some (r, s') \<longrightarrow> r = Some i"
    using new_alloc_selected[OF I assms(4) g2 sel] by blast
  have d: "gap_ix_ok s \<longrightarrow> (\<forall>junk. \<exists>s'. mem_new_alloc junk s R = Some (Some i, s'))"
    using new_alloc_defined[OF I assms(4) g2 sel] by blast
  from ij a b c d show ?thesis by blast
qed

theorem first_fit_selects_lowest_slot_witness:
  "\<exists>s. reachable s \<and> policy s = FIRST_FIT \<and> gap_ix_ok s \<and>
       free_block (node_heap s ! 3) \<and> (3 :: size_t) \<le> rec_size (node_heap s ! 3) \<and>
       free_block (node_heap s ! 5) \<and> (3 :: size_t) \<le> rec_size (node_heap s ! 5) \<and>
       (\<exists>s'. mem_new_alloc None s 3 = Some (Some 3, s'))"
proof -
  define S where "S = the (run (init_mgr 1000 100 FIRST_FIT)
           [Alloc 10, Alloc 10, Alloc 10, Alloc 10, Free 1, Alloc 5, Free 3])"
  have b: "(1000 :: addr) \<noteq> 0" by simp
  have "run (init_mgr 1000 100 FIRST_FIT)
           [Alloc 10, Alloc 10, Alloc 10, Alloc 10, Free 1, Alloc 5, Free 3] = Some S"
    unfolding S_def by code_simp
  from run_reachable[OF reachable.opened[OF b] this] have 1: "reachable S" .
  have 2: "policy S = FIRST_FIT" unfolding S_def by code_simp
  have 3: "(3 :: size_t) \<noteq> 0" by simp
  have 4: "num_gaps S \<noteq> 0" unfolding S_def by code_simp
  have 5: "used_nodes S < total_nodes S" unfolding S_def by code_simp
  have 6: "5 < unat (total_nodes S)" unfolding S_def by code_simp
  have 7: "free_block (node_heap S ! 5)" unfolding S_def by code_simp
  have 8: "3 \<le> rec_size (node_heap S ! 5)" unfolding S_def by code_simp
  have 9: "gap_ix_ok S" unfolding S_def by code_simp
  have e: "map_option fst (mem_new_alloc None S 3) = Some (Some 3)" unfolding S_def by code_simp
  have f: "free_block (node_heap S ! 3) \<and> 3 \<le> rec_size (node_heap S ! 3)" unfolding S_def by code_simp
  from first_fit_selects_lowest_slot[OF 1 2 3 4 5 6 7 8] 9
  obtain i where c: "\<forall>junk r s'. mem_new_alloc junk S 3 = Some (r, s') \<longrightarrow> r = Some i"
    and d: "\<forall>junk. \<exists>s'. mem_new_alloc junk S 3 = Some (Some i, s')" by blast
  from d obtain s' where s': "mem_new_alloc None S 3 = Some (Some i, s')" by blast
  with e have "i = 3" by simp
  with s' 1 2 9 7 8 f show ?thesis by blast
qed

end
